theory Spec2Isabelle
  imports Complex_Main "HOL-Library.Char_ord" "HOL-Library.Monad_Syntax"
begin

chapter \<open>Helpers of the Notion SDK (src/helpers.ts)\<close>

section \<open>Strings\<close>

text \<open>
  A JavaScript string is a sequence of UTF-16 code units. The model uses \<^typ>\<open>string\<close>:
  a \<^typ>\<open>char\<close> stands for a code unit in the range U+0000 .. U+00FF, compared by its code
  (the order of \<open>Char_ord\<close>). Strings with code units above U+00FF are outside the model.
\<close>

definition isWhiteSpace :: "char \<Rightarrow> bool" where
  \<comment> \<open>WhiteSpace and LineTerminator of ECMAScript, below U+0100:
      TAB, LF, VT, FF, CR, SP, NBSP.\<close>
  "isWhiteSpace c = (c \<in> set [CHR 0x09, CHR 0x0A, CHR 0x0B, CHR 0x0C, CHR 0x0D, CHR 0x20, CHR 0xA0])"

definition trim :: "string \<Rightarrow> string" where
  \<comment> \<open>\<open>String.prototype.trim\<close>\<close>
  "trim s = rev (dropWhile isWhiteSpace (rev (dropWhile isWhiteSpace s)))"

definition toLowerCase_char :: "char \<Rightarrow> char" where
  \<comment> \<open>The lower-case mapping of Unicode on U+0000 .. U+00FF: A-Z, and the Latin-1 capitals
      U+00C0 .. U+00DE but the multiplication sign U+00D7, move up by 32.\<close>
  "toLowerCase_char c =
     (if (CHR ''A'' \<le> c \<and> c \<le> CHR ''Z'') \<or> (CHR 0xC0 \<le> c \<and> c \<le> CHR 0xDE \<and> c \<noteq> CHR 0xD7)
      then char_of (of_char c + (32::nat)) else c)"

definition toLowerCase :: "string \<Rightarrow> string" where
  \<comment> \<open>\<open>String.prototype.toLowerCase\<close>\<close>
  "toLowerCase s = map toLowerCase_char s"

definition slice :: "string \<Rightarrow> nat \<Rightarrow> nat \<Rightarrow> string" where
  \<comment> \<open>\<open>String.prototype.slice(start, end)\<close> for non-negative arguments: both ends are
      clamped to the length, and an end before the start gives the empty string.\<close>
  "slice s a b = take (b - a) (drop a s)"

section \<open>Regular expressions of the identifier functions\<close>

text \<open>
  Every regular expression of the source carries the flag \<open>i\<close>. A piece of a pattern is
  modelled as a function that consumes a prefix of the subject and returns the rest, or
  \<open>None\<close> when it does not match there.
\<close>

definition isLowerHexDigit :: "char \<Rightarrow> bool" where
  \<comment> \<open>the class \<open>[0-9a-f]\<close>, case-sensitive\<close>
  "isLowerHexDigit c = ((CHR ''0'' \<le> c \<and> c \<le> CHR ''9'') \<or> (CHR ''a'' \<le> c \<and> c \<le> CHR ''f''))"

definition isHexDigit :: "char \<Rightarrow> bool" where
  \<comment> \<open>the class \<open>[0-9a-f]\<close> under the flag \<open>i\<close>\<close>
  "isHexDigit c = (isLowerHexDigit c \<or> (CHR ''A'' \<le> c \<and> c \<le> CHR ''F''))"

definition classRun :: "(char \<Rightarrow> bool) \<Rightarrow> nat \<Rightarrow> string \<Rightarrow> string option" where
  \<comment> \<open>\<open>[class]{n}\<close>\<close>
  "classRun P n s = (if n \<le> length s \<and> list_all P (take n s) then Some (drop n s) else None)"

definition lit :: "char \<Rightarrow> string \<Rightarrow> string option" where
  \<comment> \<open>one literal character that has no other letter case\<close>
  "lit c s = (case s of [] \<Rightarrow> None | x # r \<Rightarrow> if x = c then Some r else None)"

definition uuidPattern :: "(char \<Rightarrow> bool) \<Rightarrow> string \<Rightarrow> bool" where
  \<comment> \<open>\<open>^[h]{8}-[h]{4}-[h]{4}-[h]{4}-[h]{12}$\<close> for a class \<open>h\<close> of hexadecimal digits\<close>
  "uuidPattern h s =
     (classRun h 8 s \<bind> lit CHR ''-'' \<bind> classRun h 4 \<bind> lit CHR ''-'' \<bind> classRun h 4
        \<bind> lit CHR ''-'' \<bind> classRun h 4 \<bind> lit CHR ''-'' \<bind> classRun h 12 = Some [])"

definition uuidRegex_test :: "string \<Rightarrow> bool" where
  \<comment> \<open>\<open>/^[0-9a-f]{8}-[0-9a-f]{4}-[0-9a-f]{4}-[0-9a-f]{4}-[0-9a-f]{12}$/i.test\<close>\<close>
  "uuidRegex_test s = uuidPattern isHexDigit s"

definition compactUuidRegex_test :: "string \<Rightarrow> bool" where
  \<comment> \<open>\<open>/^[0-9a-f]{32}$/i.test\<close>\<close>
  "compactUuidRegex_test s = (classRun isHexDigit 32 s = Some [])"

definition canonicalPattern :: "string \<Rightarrow> bool" where
  \<comment> \<open>The canonical form of the specification: lower-case, hyphenated, 8-4-4-4-12.\<close>
  "canonicalPattern s = uuidPattern isLowerHexDigit s"

section \<open>formatUuid\<close>

definition formatUuid :: "string \<Rightarrow> string" where
  "formatUuid compactId =
     (let clean = toLowerCase compactId
      in slice clean 0 8 @ ''-'' @ slice clean 8 12 @ ''-'' @ slice clean 12 16 @ ''-''
           @ slice clean 16 20 @ ''-'' @ slice clean 20 32)"

section \<open>extractNotionId\<close>

fun regexSearch :: "(string \<Rightarrow> 'a option) \<Rightarrow> string \<Rightarrow> 'a option" where
  \<comment> \<open>\<open>String.prototype.match\<close> with a pattern that is not anchored and has no flag \<open>g\<close>:
      the attempt is made at every start position from left to right, the end of the
      subject included, and the first success is the match.\<close>
  "regexSearch attempt [] = attempt []"
| "regexSearch attempt (c # r) =
     (case attempt (c # r) of Some m \<Rightarrow> Some m | None \<Rightarrow> regexSearch attempt r)"

definition capture :: "(char \<Rightarrow> bool) \<Rightarrow> nat \<Rightarrow> string \<Rightarrow> (string \<times> string) option" where
  \<comment> \<open>the capturing group \<open>([class]{n})\<close>: the captured text and the rest\<close>
  "capture P n s = (if n \<le> length s \<and> list_all P (take n s) then Some (take n s, drop n s) else None)"

definition litI :: "string \<Rightarrow> string \<Rightarrow> string option" where
  \<comment> \<open>a literal of ASCII characters under the flag \<open>i\<close>: each character of the subject is
      compared with the pattern's character up to letter case\<close>
  "litI p s =
     (if length p \<le> length s \<and> map toLowerCase_char (take (length p) s) = map toLowerCase_char p
      then Some (drop (length p) s) else None)"

definition isPathDelim :: "char \<Rightarrow> bool" where
  \<comment> \<open>the class \<open>[/?#]\<close>\<close>
  "isPathDelim c = (c = CHR ''/'' \<or> c = CHR ''?'' \<or> c = CHR ''#'')"

definition pathTail :: "string \<Rightarrow> string option" where
  \<comment> \<open>\<open>-([0-9a-f]{32})(?:[/?#]|$)\<close> at the start of \<open>s\<close>; the result is group 1\<close>
  "pathTail s =
     (case lit CHR ''-'' s \<bind> capture isHexDigit 32 of
        None \<Rightarrow> None
      | Some (g, r) \<Rightarrow> (case r of [] \<Rightarrow> Some g | d # _ \<Rightarrow> if isPathDelim d then Some g else None))"

fun pathStar :: "string \<Rightarrow> nat \<Rightarrow> string option" where
  \<comment> \<open>\<open>[^/?#]*\<close> followed by the rest of the pattern. The star is greedy: it first takes
      \<open>k\<close> characters, and gives them back one at a time while the rest does not match.\<close>
  "pathStar s 0 = pathTail s"
| "pathStar s (Suc k) = (case pathTail (drop (Suc k) s) of Some g \<Rightarrow> Some g | None \<Rightarrow> pathStar s k)"

definition pathAt :: "string \<Rightarrow> string option" where
  \<comment> \<open>one attempt of \<open>/\/[^/?#]*-([0-9a-f]{32})(?:[/?#]|$)/i\<close> at the start of \<open>s\<close>\<close>
  "pathAt s =
     (case lit CHR ''/'' s of
        None \<Rightarrow> None
      | Some r \<Rightarrow> pathStar r (length (takeWhile (\<lambda>c. \<not> isPathDelim c) r)))"

definition queryAt :: "string \<Rightarrow> string option" where
  \<comment> \<open>one attempt of \<open>/[?&](?:p|page_id|database_id)=([0-9a-f]{32})/i\<close> at the start of
      \<open>s\<close>: the alternatives are tried in their order, each with the rest of the pattern\<close>
  "queryAt s =
     (case s of
        [] \<Rightarrow> None
      | c # r \<Rightarrow>
          if c = CHR ''?'' \<or> c = CHR ''&'' then
            (case litI ''p'' r \<bind> litI ''='' \<bind> capture isHexDigit 32 of
               Some (g, _) \<Rightarrow> Some g
             | None \<Rightarrow>
            (case litI ''page_id'' r \<bind> litI ''='' \<bind> capture isHexDigit 32 of
               Some (g, _) \<Rightarrow> Some g
             | None \<Rightarrow>
            (case litI ''database_id'' r \<bind> litI ''='' \<bind> capture isHexDigit 32 of
               Some (g, _) \<Rightarrow> Some g
             | None \<Rightarrow> None)))
          else None)"

definition anyAt :: "string \<Rightarrow> string option" where
  \<comment> \<open>one attempt of \<open>/([0-9a-f]{32})/i\<close> at the start of \<open>s\<close>\<close>
  "anyAt s = map_option fst (capture isHexDigit 32 s)"

definition extractNotionId :: "string \<Rightarrow> string option" where
  \<comment> \<open>The argument is a string (its declared type); \<open>None\<close> is \<open>null\<close>. The empty string is
      the one falsy string. A captured group of 32 characters is never falsy.\<close>
  "extractNotionId urlOrId =
     (if urlOrId = [] then None
      else
        let trimmed = trim urlOrId in
        if uuidRegex_test trimmed then Some (toLowerCase trimmed)
        else if compactUuidRegex_test trimmed then Some (formatUuid trimmed)
        else
          (case regexSearch pathAt trimmed of
             Some pathMatch \<Rightarrow> Some (formatUuid pathMatch)
           | None \<Rightarrow>
          (case regexSearch queryAt trimmed of
             Some queryMatch \<Rightarrow> Some (formatUuid queryMatch)
           | None \<Rightarrow>
          (case regexSearch anyAt trimmed of
             Some anyMatch \<Rightarrow> Some (formatUuid anyMatch)
           | None \<Rightarrow> None))))"

subsection \<open>The forms named by the specification\<close>

text \<open>
  \<open>pathSegment s A\<close>: the string \<open>s\<close> starts with a path segment of the form
  \<open>/<slug>-<32 hex>\<close>: a slash, a slug free of \<open>/\<close>, \<open>?\<close> and \<open>#\<close>, a hyphen, the 32
  hexadecimal digits \<open>A\<close>, and then \<open>/\<close>, \<open>?\<close>, \<open>#\<close> or the end of the string.
\<close>

definition pathSegment :: "string \<Rightarrow> string \<Rightarrow> bool" where
  "pathSegment s A =
     (\<exists>slug post. s = ''/'' @ slug @ ''-'' @ A @ post \<and> list_all (\<lambda>c. \<not> isPathDelim c) slug \<and>
        length A = 32 \<and> list_all isHexDigit A \<and> (post = [] \<or> isPathDelim (hd post)))"

text \<open>
  \<open>querySegment s B\<close>: the string \<open>s\<close> starts with a query parameter named \<open>p\<close>,
  \<open>page_id\<close> or \<open>database_id\<close> (in any letter case) whose value starts with the 32
  hexadecimal digits \<open>B\<close>.
\<close>

definition querySegment :: "string \<Rightarrow> string \<Rightarrow> bool" where
  "querySegment s B =
     (\<exists>c name post. s = [c] @ name @ ''='' @ B @ post \<and> (c = CHR ''?'' \<or> c = CHR ''&'') \<and>
        toLowerCase name \<in> {''p'', ''page_id'', ''database_id''} \<and>
        length B = 32 \<and> list_all isHexDigit B)"

section \<open>Pagination\<close>

text \<open>
  A cursor is a value of type \<open>string | null | undefined\<close>. An absent \<open>start_cursor\<close> reads as
  \<open>undefined\<close>. Only a non-empty string is truthy.
\<close>

datatype cursor = Undefined | Null | Cursor string

fun truthy :: "cursor \<Rightarrow> bool" where
  "truthy (Cursor s) = (s \<noteq> [])"
| "truthy Null = False"
| "truthy Undefined = False"

text \<open>
  \<open>Args extends PaginatedArgs\<close>: the other fields of the argument object are the extension
  of the record. The object spread \<open>{ ...firstPageArgs, start_cursor: nextCursor }\<close> is the
  record update \<open>firstPageArgs\<lparr>start_cursor := nextCursor\<rparr>\<close>, a new value. Of a
  \<open>PaginatedList\<close> the constant field \<open>object: "list"\<close>, which nothing reads, is left out.
\<close>

record PaginatedArgs =
  start_cursor :: cursor

record 'item PaginatedList =
  results :: "'item list"
  next_cursor :: cursor
  has_more :: bool

text \<open>
  \<open>listFn\<close> is any function of the caller: it reads and changes a state of its own (the
  remote service, the counters of a test double) and either resolves with a page (\<open>Inr\<close>) or
  rejects with an error (\<open>Inl\<close>). Nothing else runs between two steps of the generator.
\<close>

type_synonym ('z, 's, 'e, 'item) listFn =
  "'z PaginatedArgs_scheme \<Rightarrow> 's \<Rightarrow> ('e + 'item PaginatedList) \<times> 's"

text \<open>
  The async generator \<open>iteratePaginatedAPI\<close> as a state machine. A generator object is
  suspended at one of these points:
  \<^item> \<open>AtCall nextCursor\<close>: at the head of the \<open>do\<close> body, before \<open>listFn\<close> is called;
  \<^item> \<open>Yielding items nextCursor\<close>: inside \<open>yield* response.results\<close> with \<open>items\<close> still to
    be produced, where \<open>nextCursor\<close> is \<open>response.next_cursor\<close>;
  \<^item> \<open>Completed\<close>: after the loop has ended or an error has left the body.
\<close>

datatype 'item generator = AtCall cursor | Yielding "'item list" cursor | Completed

datatype ('e, 'item) outcome = Yield 'item | Return | Throw 'e

definition iteratePaginatedAPI :: "'z PaginatedArgs_scheme \<Rightarrow> 'item generator" where
  \<comment> \<open>the generator object before its first \<open>next()\<close>:
      \<open>let nextCursor = firstPageArgs.start_cursor\<close>\<close>
  "iteratePaginatedAPI firstPageArgs = AtCall (start_cursor firstPageArgs)"

partial_function (option) generator_next ::
  "('z, 's, 'e, 'item) listFn \<Rightarrow> 'z PaginatedArgs_scheme \<Rightarrow> 'item generator \<Rightarrow> 's
     \<Rightarrow> (('e, 'item) outcome \<times> 'item generator \<times> 's) option"
where
  \<comment> \<open>One \<open>next()\<close>: the body runs to its next \<open>yield\<close>, to its end, or to an error. It
      does not return (\<open>None\<close>) when \<open>listFn\<close> answers empty pages with truthy cursors for
      ever.\<close>
  "generator_next listFn firstPageArgs g s =
     (case g of
        AtCall nextCursor \<Rightarrow>
          (case listFn (firstPageArgs\<lparr>start_cursor := nextCursor\<rparr>) s of
             (Inl e, s') \<Rightarrow> Some (Throw e, Completed, s')
           | (Inr response, s') \<Rightarrow>
               generator_next listFn firstPageArgs
                 (Yielding (results response) (next_cursor response)) s')
      | Yielding items nextCursor \<Rightarrow>
          (case items of
             item # rest \<Rightarrow> Some (Yield item, Yielding rest nextCursor, s)
           | [] \<Rightarrow>
               if truthy nextCursor then generator_next listFn firstPageArgs (AtCall nextCursor) s
               else Some (Return, Completed, s))
      | Completed \<Rightarrow> Some (Return, Completed, s))"

partial_function (option) collect_loop ::
  "('z, 's, 'e, 'item) listFn \<Rightarrow> 'z PaginatedArgs_scheme \<Rightarrow> 'item generator \<Rightarrow> 's \<Rightarrow> 'item list
     \<Rightarrow> (('e + 'item list) \<times> 's) option"
where
  \<comment> \<open>\<open>for await (const item of ...) { results.push(item) }\<close> followed by \<open>return results\<close>;
      \<open>collected\<close> is the array \<open>results\<close>\<close>
  "collect_loop listFn firstPageArgs g s collected =
     (case generator_next listFn firstPageArgs g s of
        None \<Rightarrow> None
      | Some (Yield item, g', s') \<Rightarrow> collect_loop listFn firstPageArgs g' s' (collected @ [item])
      | Some (Return, g', s') \<Rightarrow> Some (Inr collected, s')
      | Some (Throw e, g', s') \<Rightarrow> Some (Inl e, s'))"

definition collectPaginatedAPI ::
  "('z, 's, 'e, 'item) listFn \<Rightarrow> 'z PaginatedArgs_scheme \<Rightarrow> 's \<Rightarrow> (('e + 'item list) \<times> 's) option"
where
  \<comment> \<open>\<open>Inr\<close>: the promise resolves with the array; \<open>Inl\<close>: it rejects with the error\<close>
  "collectPaginatedAPI listFn firstPageArgs s =
     collect_loop listFn firstPageArgs (iteratePaginatedAPI firstPageArgs) s []"

fun consume ::
  "nat \<Rightarrow> ('z, 's, 'e, 'item) listFn \<Rightarrow> 'z PaginatedArgs_scheme \<Rightarrow> 'item generator \<Rightarrow> 's
     \<Rightarrow> (('e, 'item) outcome list \<times> 'item generator \<times> 's) option"
where
  \<comment> \<open>a consumer of the lazy sequence that calls \<open>next()\<close> \<open>n\<close> times and keeps what it got\<close>
  "consume 0 listFn firstPageArgs g s = Some ([], g, s)"
| "consume (Suc n) listFn firstPageArgs g s =
     (case generator_next listFn firstPageArgs g s of
        None \<Rightarrow> None
      | Some (out, g', s') \<Rightarrow>
          (case consume n listFn firstPageArgs g' s' of
             None \<Rightarrow> None
           | Some (outs, g'', s'') \<Rightarrow> Some (out # outs, g'', s'')))"

subsection \<open>Test doubles for listFn\<close>

definition scripted ::
  "(nat \<Rightarrow> 'e + 'item PaginatedList) \<Rightarrow> ('z, 'z PaginatedArgs_scheme list, 'e, 'item) listFn" where
  \<comment> \<open>A scripted \<open>listFn\<close>: its invocation number \<open>k\<close> (from 0) answers \<open>script k\<close>. Its
      state is the list of the arguments it was invoked with so far.\<close>
  "scripted script args calls = (script (length calls), calls @ [args])"

definition recording ::
  "('z, 's, 'e, 'item) listFn
     \<Rightarrow> ('z, ('z PaginatedArgs_scheme \<times> ('e + 'item PaginatedList)) list \<times> 's, 'e, 'item) listFn" where
  \<comment> \<open>any \<open>listFn\<close> under a spy that records each invocation: the arguments and the answer\<close>
  "recording listFn args st =
     (case st of (calls, s) \<Rightarrow>
        (case listFn args s of (answer, s') \<Rightarrow> (answer, (calls @ [(args, answer)], s'))))"

subsection \<open>What the recorded invocations must look like\<close>

fun expectedCalls ::
  "'z PaginatedArgs_scheme \<Rightarrow> cursor
     \<Rightarrow> ('z PaginatedArgs_scheme \<times> ('e + 'item PaginatedList)) list \<Rightarrow> bool" where
  \<comment> \<open>\<open>expectedCalls firstPageArgs c calls\<close>: the first invocation has the arguments
      \<open>firstPageArgs\<close> with \<open>start_cursor\<close> set to \<open>c\<close>, each later one has them with
      \<open>start_cursor\<close> set to the \<open>next_cursor\<close> of the answer before it, and no invocation
      follows a rejection.\<close>
  "expectedCalls firstPageArgs c [] = True"
| "expectedCalls firstPageArgs c ((args, answer) # later) =
     (args = firstPageArgs\<lparr>start_cursor := c\<rparr> \<and>
      (case answer of
         Inr response \<Rightarrow> expectedCalls firstPageArgs (next_cursor response) later
       | Inl e \<Rightarrow> later = []))"

fun chainFrom ::
  "'z PaginatedArgs_scheme \<Rightarrow> cursor
     \<Rightarrow> ('z PaginatedArgs_scheme \<times> ('e + 'item PaginatedList)) list \<Rightarrow> cursor \<Rightarrow> bool" where
  \<comment> \<open>as \<open>expectedCalls\<close>, with every answer a page, and \<open>c'\<close> the cursor for the next
      invocation\<close>
  "chainFrom firstPageArgs c [] c' = (c = c')"
| "chainFrom firstPageArgs c ((args, answer) # later) c' =
     (args = firstPageArgs\<lparr>start_cursor := c\<rparr> \<and>
      (case answer of
         Inr response \<Rightarrow> chainFrom firstPageArgs (next_cursor response) later c'
       | Inl e \<Rightarrow> False))"

definition consistent ::
  "'z PaginatedArgs_scheme \<Rightarrow> 'item generator
     \<Rightarrow> ('z PaginatedArgs_scheme \<times> ('e + 'item PaginatedList)) list \<Rightarrow> bool" where
  \<comment> \<open>the invariant that ties a suspended generator to the invocations made so far\<close>
  "consistent firstPageArgs g calls =
     (case g of
        AtCall c \<Rightarrow> chainFrom firstPageArgs (start_cursor firstPageArgs) calls c
      | Yielding items c \<Rightarrow> chainFrom firstPageArgs (start_cursor firstPageArgs) calls c
      | Completed \<Rightarrow> expectedCalls firstPageArgs (start_cursor firstPageArgs) calls)"

text \<open>
  The argument type of the example in the documentation of \<open>iteratePaginatedAPI\<close>:
  \<open>notion.blocks.children.list\<close> takes a \<open>block_id\<close> besides the cursor.
\<close>

record ListBlockChildrenArgs = PaginatedArgs +
  block_id :: string

section \<open>JavaScript values\<close>

text \<open>
  The remaining helpers inspect values that come from parsed JSON, and their results depend
  on what JavaScript does with a missing field, with \<open>null\<close> and with \<open>undefined\<close>. A value
  is one of the JSON shapes or \<open>undefined\<close>; \<open>JBuiltin\<close> stands for a function or object of the
  standard library that a lookup reaches through \<open>Object.prototype\<close>. An object is the list
  of its own fields in their order. Numbers are only tested for truthiness and passed on.
\<close>

datatype jsval =
    JUndefined
  | JNull
  | JBool bool
  | JNum rat
  | JStr string
  | JArr "jsval list"
  | JObj "(string \<times> jsval) list"
  | JBuiltin

text \<open>
  An evaluation either gives a value or throws. \<open>TypeError\<close> is the exception of JavaScript;
  \<open>Unmodelled\<close> marks an operation whose result in JavaScript is not described here
  (a member of a string, of an array or of a library object; the text of a number or of
  an object).
\<close>

datatype js_error = TypeError | Unmodelled

definition bindE :: "'e + 'a \<Rightarrow> ('a \<Rightarrow> 'e + 'b) \<Rightarrow> 'e + 'b" where
  \<comment> \<open>sequencing: an exception of the first part ends the evaluation\<close>
  "bindE m f = (case m of Inl e \<Rightarrow> Inl e | Inr x \<Rightarrow> f x)"

fun mapE :: "('a \<Rightarrow> 'e + 'b) \<Rightarrow> 'a list \<Rightarrow> 'e + 'b list" where
  \<comment> \<open>\<open>Array.prototype.map\<close>: the callback runs on the elements in order\<close>
  "mapE f [] = Inr []"
| "mapE f (x # xs) = bindE (f x) (\<lambda>y. bindE (mapE f xs) (\<lambda>ys. Inr (y # ys)))"

fun js_truthy :: "jsval \<Rightarrow> bool" where
  "js_truthy JUndefined = False"
| "js_truthy JNull = False"
| "js_truthy (JBool b) = b"
| "js_truthy (JNum n) = (n \<noteq> 0)"
| "js_truthy (JStr s) = (s \<noteq> [])"
| "js_truthy (JArr xs) = True"
| "js_truthy (JObj fs) = True"
| "js_truthy JBuiltin = True"

definition js_or :: "jsval \<Rightarrow> jsval \<Rightarrow> jsval" where
  \<comment> \<open>\<open>a || b\<close> for operands without effects\<close>
  "js_or a b = (if js_truthy a then a else b)"

definition objectPrototypeNames :: "string list" where
  \<comment> \<open>the members that every plain object inherits from \<open>Object.prototype\<close>\<close>
  "objectPrototypeNames =
     [''constructor'', ''__proto__'', ''hasOwnProperty'', ''isPrototypeOf'',
      ''propertyIsEnumerable'', ''toLocaleString'', ''toString'', ''valueOf'',
      ''__defineGetter__'', ''__defineSetter__'', ''__lookupGetter__'', ''__lookupSetter__'']"

fun js_member :: "jsval \<Rightarrow> string \<Rightarrow> js_error + jsval" where
  \<comment> \<open>\<open>v.key\<close> and \<open>v[key]\<close>. Reading a member of \<open>null\<close> or \<open>undefined\<close> throws. A plain
      object gives its own field, else an inherited member, else \<open>undefined\<close>. No library
      object or function has a member named \<open>type\<close>.\<close>
  "js_member JUndefined key = Inl TypeError"
| "js_member JNull key = Inl TypeError"
| "js_member (JObj fs) key =
     (case map_of fs key of
        Some v \<Rightarrow> Inr v
      | None \<Rightarrow> if key \<in> set objectPrototypeNames then Inr JBuiltin else Inr JUndefined)"
| "js_member JBuiltin key = (if key = ''type'' then Inr JUndefined else Inl Unmodelled)"
| "js_member (JBool b) key = Inl Unmodelled"
| "js_member (JNum n) key = Inl Unmodelled"
| "js_member (JStr s) key = Inl Unmodelled"
| "js_member (JArr xs) key = Inl Unmodelled"

fun js_in :: "string \<Rightarrow> jsval \<Rightarrow> js_error + bool" where
  \<comment> \<open>\<open>key in v\<close>: own and inherited members of an object; a \<open>TypeError\<close> when \<open>v\<close> is not
      an object\<close>
  "js_in key (JObj fs) = Inr (key \<in> fst ` set fs \<or> key \<in> set objectPrototypeNames)"
| "js_in key (JArr xs) = Inl Unmodelled"
| "js_in key JBuiltin = Inl Unmodelled"
| "js_in key JUndefined = Inl TypeError"
| "js_in key JNull = Inl TypeError"
| "js_in key (JBool b) = Inl TypeError"
| "js_in key (JNum n) = Inl TypeError"
| "js_in key (JStr s) = Inl TypeError"

fun js_optional_member :: "jsval \<Rightarrow> string \<Rightarrow> js_error + jsval" where
  \<comment> \<open>\<open>v?.key\<close>: \<open>undefined\<close> when \<open>v\<close> is \<open>null\<close> or \<open>undefined\<close>\<close>
  "js_optional_member JUndefined key = Inr JUndefined"
| "js_optional_member JNull key = Inr JUndefined"
| "js_optional_member v key = js_member v key"

fun js_toString :: "jsval \<Rightarrow> js_error + string" where
  \<comment> \<open>the conversion to a string that a template literal applies\<close>
  "js_toString (JStr s) = Inr s"
| "js_toString JUndefined = Inr ''undefined''"
| "js_toString JNull = Inr ''null''"
| "js_toString (JBool b) = Inr (if b then ''true'' else ''false'')"
| "js_toString (JNum n) = Inl Unmodelled"
| "js_toString (JArr xs) = Inl Unmodelled"
| "js_toString (JObj fs) = Inl Unmodelled"
| "js_toString JBuiltin = Inl Unmodelled"

definition template1 :: "string \<Rightarrow> jsval \<Rightarrow> string \<Rightarrow> js_error + jsval" where
  \<comment> \<open>a template literal with one substitution\<close>
  "template1 pre v post = bindE (js_toString v) (\<lambda>s. Inr (JStr (pre @ s @ post)))"

definition template2 :: "string \<Rightarrow> jsval \<Rightarrow> string \<Rightarrow> jsval \<Rightarrow> string \<Rightarrow> js_error + jsval" where
  \<comment> \<open>a template literal with two substitutions\<close>
  "template2 pre v mid w post =
     bindE (js_toString v) (\<lambda>s. bindE (js_toString w) (\<lambda>t. Inr (JStr (pre @ s @ mid @ t @ post))))"

definition js_join :: "jsval list \<Rightarrow> js_error + string" where
  \<comment> \<open>\<open>Array.prototype.join("")\<close>: \<open>null\<close> and \<open>undefined\<close> elements give the empty string\<close>
  "js_join xs =
     bindE (mapE (\<lambda>x. if x = JNull \<or> x = JUndefined then Inr [] else js_toString x) xs)
       (\<lambda>ss. Inr (concat ss))"

fun Array_isArray :: "jsval \<Rightarrow> bool" where
  "Array_isArray (JArr xs) = True"
| "Array_isArray v = False"

fun elements :: "jsval \<Rightarrow> jsval list" where
  \<comment> \<open>the elements of an array\<close>
  "elements (JArr xs) = xs"
| "elements v = []"

section \<open>Full and partial responses\<close>

definition isFullBlock :: "jsval \<Rightarrow> js_error + bool" where
  "isFullBlock response =
     bindE (js_member response ''object'') (\<lambda>obj.
       if obj = JStr ''block'' then js_in ''type'' response else Inr False)"

definition isFullPage :: "jsval \<Rightarrow> js_error + bool" where
  "isFullPage response =
     bindE (js_member response ''object'') (\<lambda>obj.
       if obj = JStr ''page'' then js_in ''url'' response else Inr False)"

definition isFullDataSource :: "jsval \<Rightarrow> js_error + bool" where
  "isFullDataSource response =
     bindE (js_member response ''object'') (\<lambda>obj. Inr (obj = JStr ''data_source''))"

definition isFullDatabase :: "jsval \<Rightarrow> js_error + bool" where
  "isFullDatabase response =
     bindE (js_member response ''object'') (\<lambda>obj. Inr (obj = JStr ''database''))"

definition isFullPageOrDataSource :: "jsval \<Rightarrow> js_error + bool" where
  "isFullPageOrDataSource response =
     bindE (js_member response ''object'') (\<lambda>obj.
       if obj = JStr ''data_source'' then isFullDataSource response else isFullPage response)"

definition isFullUser :: "jsval \<Rightarrow> js_error + bool" where
  "isFullUser response = js_in ''type'' response"

definition isFullComment :: "jsval \<Rightarrow> js_error + bool" where
  "isFullComment response = js_in ''created_by'' response"

definition deleteField :: "string \<Rightarrow> (string \<times> jsval) list \<Rightarrow> (string \<times> jsval) list" where
  \<comment> \<open>\<open>delete object[key]\<close> on a fixture\<close>
  "deleteField key fs = filter (\<lambda>(k, v). k \<noteq> key) fs"

section \<open>Rich text\<close>

definition richTextToPlainText :: "jsval \<Rightarrow> js_error + string" where
  "richTextToPlainText richText =
     (if \<not> js_truthy richText \<or> \<not> Array_isArray richText then Inr []
      else
        bindE (mapE (\<lambda>item. bindE (js_member item ''plain_text'') (\<lambda>plain_text.
                              Inr (js_or plain_text (JStr []))))
                 (elements richText))
          js_join)"

definition annotate :: "jsval \<Rightarrow> string \<Rightarrow> string \<Rightarrow> string \<Rightarrow> jsval \<Rightarrow> js_error + jsval" where
  \<comment> \<open>\<open>if (item.annotations.flag) { text = `pre${text}post` }\<close>; the result is \<open>text\<close>
      after the statement\<close>
  "annotate annotations flag pre post text =
     bindE (js_member annotations flag) (\<lambda>on.
       if js_truthy on then template1 pre text post else Inr text)"

definition markdownItem :: "jsval \<Rightarrow> js_error + jsval" where
  \<comment> \<open>the callback of \<open>richText.map\<close> in \<open>richTextToMarkdown\<close>\<close>
  "markdownItem item =
     bindE (js_member item ''plain_text'') (\<lambda>plain_text.
     let text = js_or plain_text (JStr []) in
     bindE (js_member item ''type'') (\<lambda>type.
       if type = JStr ''equation'' then template1 ''$'' text ''$''
       else if type = JStr ''mention'' then Inr text
       else
         bindE (js_member item ''annotations'') (\<lambda>annotations.
         bindE (if js_truthy annotations then
                  bindE (annotate annotations ''bold'' ''**'' ''**'' text) (\<lambda>text.
                  bindE (annotate annotations ''italic'' ''*'' ''*'' text) (\<lambda>text.
                  bindE (annotate annotations ''strikethrough'' ''~~'' ''~~'' text) (\<lambda>text.
                  bindE (annotate annotations ''underline'' ''<u>'' ''</u>'' text) (\<lambda>text.
                  annotate annotations ''code'' ''`'' ''`'' text))))
                else Inr text) (\<lambda>text.
         if type = JStr ''text'' then
           bindE (js_member item ''text'') (\<lambda>item_text.
           bindE (js_optional_member item_text ''link'') (\<lambda>link.
             if js_truthy link then
               bindE (js_member link ''url'') (\<lambda>url. template2 ''['' text '']('' url '')'')
             else Inr text))
         else Inr text))))"

definition richTextToMarkdown :: "jsval \<Rightarrow> js_error + string" where
  "richTextToMarkdown richText =
     (if \<not> js_truthy richText \<or> \<not> Array_isArray richText then Inr []
      else bindE (mapE markdownItem (elements richText)) js_join)"

subsection \<open>Rich-text items as the API types them\<close>

text \<open>
  Modelled from the spec: the types \<open>RichTextItemResponse\<close>, its \<open>annotations\<close> and the
  payload of a text item are declared in \<open>api-endpoints.ts\<close>, which is not among the sources.
  The specification lists the common fields \<open>plain_text\<close>, \<open>href\<close> and \<open>annotations\<close> (the
  flags \<open>bold\<close>, \<open>italic\<close>, \<open>strikethrough\<close>, \<open>underline\<close>, \<open>code\<close>, and a colour); the tests
  show the payload \<open>text: { content, link: { url } | null }\<close>. A field that may be missing
  from the object is an \<open>option\<close>. \<open>other\<close> holds every further field of the object (the
  payload of an equation or of a mention).
\<close>

record Annotations =
  bold :: bool
  italic :: bool
  strikethrough :: bool
  underline :: bool
  code :: bool
  color :: string

record TextPayload =
  content :: string
  link :: "string option"

record RichTextItem =
  item_type :: string
  plain_text :: "string option"
  href :: "string option"
  annotations :: "Annotations option"
  item_text :: "TextPayload option"
  other :: "(string \<times> jsval) list"

definition encodeAnnotations :: "Annotations \<Rightarrow> jsval" where
  "encodeAnnotations a =
     JObj [(''bold'', JBool (bold a)), (''italic'', JBool (italic a)),
           (''strikethrough'', JBool (strikethrough a)), (''underline'', JBool (underline a)),
           (''code'', JBool (code a)), (''color'', JStr (color a))]"

definition encodeText :: "TextPayload \<Rightarrow> jsval" where
  "encodeText t =
     JObj [(''content'', JStr (content t)),
           (''link'', case link t of None \<Rightarrow> JNull | Some url \<Rightarrow> JObj [(''url'', JStr url)])]"

definition itemFieldNames :: "string list" where
  "itemFieldNames = [''type'', ''plain_text'', ''href'', ''annotations'', ''text'']"

definition encodeItem :: "RichTextItem \<Rightarrow> jsval" where
  \<comment> \<open>the object that the typed item stands for; \<open>other\<close> cannot override a typed field\<close>
  "encodeItem it =
     JObj ([(''type'', JStr (item_type it))]
           @ (case plain_text it of None \<Rightarrow> [] | Some s \<Rightarrow> [(''plain_text'', JStr s)])
           @ [(''href'', case href it of None \<Rightarrow> JNull | Some h \<Rightarrow> JStr h)]
           @ (case annotations it of None \<Rightarrow> [] | Some a \<Rightarrow> [(''annotations'', encodeAnnotations a)])
           @ (case item_text it of None \<Rightarrow> [] | Some t \<Rightarrow> [(''text'', encodeText t)])
           @ filter (\<lambda>(k, v). k \<notin> set itemFieldNames) (other it))"

subsection \<open>The renderer in the words of the specification\<close>

definition plainOf :: "RichTextItem \<Rightarrow> string" where
  \<comment> \<open>the \<open>plain_text\<close> of a span, the empty string if absent\<close>
  "plainOf it = (case plain_text it of None \<Rightarrow> [] | Some s \<Rightarrow> s)"

definition toPlainText_spec :: "RichTextItem list \<Rightarrow> string" where
  \<comment> \<open>concatenate each span's \<open>plain_text\<close>, in sequence order\<close>
  "toPlainText_spec items = concat (map plainOf items)"

definition wrapIf :: "bool \<Rightarrow> string \<Rightarrow> string \<Rightarrow> string \<Rightarrow> string" where
  "wrapIf flag pre post x = (if flag then pre @ x @ post else x)"

definition flagOf :: "RichTextItem \<Rightarrow> (Annotations \<Rightarrow> bool) \<Rightarrow> bool" where
  \<comment> \<open>a flag of the span; no flag is set when the span has no annotations\<close>
  "flagOf it flag = (case annotations it of None \<Rightarrow> False | Some a \<Rightarrow> flag a)"

definition linkOf :: "RichTextItem \<Rightarrow> string option" where
  \<comment> \<open>the link that a span of kind \<open>text\<close> carries\<close>
  "linkOf it =
     (if item_type it = ''text'' then (case item_text it of None \<Rightarrow> None | Some t \<Rightarrow> link t) else None)"

definition toMarkdown_span :: "RichTextItem \<Rightarrow> string" where
  \<comment> \<open>an equation is \<open>$plain_text$\<close>, a mention is its \<open>plain_text\<close>; otherwise bold, italic,
      strikethrough and underline wrap in this order, code wraps what they produced, and
      the link of a text span wraps last\<close>
  "toMarkdown_span it =
     (if item_type it = ''equation'' then ''$'' @ plainOf it @ ''$''
      else if item_type it = ''mention'' then plainOf it
      else
        let styled =
              wrapIf (flagOf it underline) ''<u>'' ''</u>''
                (wrapIf (flagOf it strikethrough) ''~~'' ''~~''
                  (wrapIf (flagOf it italic) ''*'' ''*''
                    (wrapIf (flagOf it bold) ''**'' ''**'' (plainOf it))));
            coded = wrapIf (flagOf it code) ''`'' ''`'' styled
        in (case linkOf it of None \<Rightarrow> coded | Some url \<Rightarrow> ''['' @ coded @ '']('' @ url @ '')''))"

definition toMarkdown_spec :: "RichTextItem list \<Rightarrow> string" where
  \<comment> \<open>join all span outputs with no separator\<close>
  "toMarkdown_spec items = concat (map toMarkdown_span items)"

section \<open>getPageProperty\<close>

definition rawPayload :: "jsval \<Rightarrow> string \<Rightarrow> js_error + jsval" where
  \<comment> \<open>\<open>"key" in property ? property.key : null\<close>\<close>
  "rawPayload property key =
     bindE (js_in key property) (\<lambda>present.
       if present then js_member property key else Inr JNull)"

definition richTextPayload :: "jsval \<Rightarrow> string \<Rightarrow> js_error + jsval" where
  \<comment> \<open>\<open>"key" in property ? richTextToPlainText(property.key) : null\<close>\<close>
  "richTextPayload property key =
     bindE (js_in key property) (\<lambda>present.
       if present then
         bindE (js_member property key) (\<lambda>richText.
         bindE (richTextToPlainText richText) (\<lambda>s. Inr (JStr s)))
       else Inr JNull)"

definition namePayload :: "jsval \<Rightarrow> string \<Rightarrow> js_error + jsval" where
  \<comment> \<open>\<open>"key" in property ? property.key?.name : null\<close>\<close>
  "namePayload property key =
     bindE (js_in key property) (\<lambda>present.
       if present then
         bindE (js_member property key) (\<lambda>option. js_optional_member option ''name'')
       else Inr JNull)"

fun js_array_map :: "jsval \<Rightarrow> (jsval \<Rightarrow> js_error + jsval) \<Rightarrow> js_error + jsval" where
  \<comment> \<open>\<open>v.map(f)\<close>: the method of an array; a \<open>TypeError\<close> when \<open>v\<close> is \<open>null\<close> or
      \<open>undefined\<close>, or has no callable member \<open>map\<close>\<close>
  "js_array_map (JArr xs) f = bindE (mapE f xs) (\<lambda>ys. Inr (JArr ys))"
| "js_array_map (JObj fs) f =
     (case map_of fs ''map'' of Some JBuiltin \<Rightarrow> Inl Unmodelled | _ \<Rightarrow> Inl TypeError)"
| "js_array_map JBuiltin f = Inl Unmodelled"
| "js_array_map v f = Inl TypeError"

definition namesPayload :: "jsval \<Rightarrow> string \<Rightarrow> js_error + jsval" where
  \<comment> \<open>\<open>"key" in property ? property.key.map(item => item.name) : null\<close>\<close>
  "namesPayload property key =
     bindE (js_in key property) (\<lambda>present.
       if present then
         bindE (js_member property key) (\<lambda>options.
           js_array_map options (\<lambda>item. js_member item ''name''))
       else Inr JNull)"

definition getPageProperty :: "jsval \<Rightarrow> string \<Rightarrow> js_error + jsval" where
  "getPageProperty page propertyName =
     bindE (isFullPage page) (\<lambda>full.
     if \<not> full then Inr JNull
     else
       bindE (js_member page ''properties'') (\<lambda>properties.
       if \<not> js_truthy properties then Inr JNull
       else
         bindE (js_member properties propertyName) (\<lambda>property.
         if \<not> js_truthy property then Inr JNull
         else
           bindE (js_member property ''type'') (\<lambda>type.
           if type = JStr ''title'' then richTextPayload property ''title''
           else if type = JStr ''rich_text'' then richTextPayload property ''rich_text''
           else if type = JStr ''number'' then rawPayload property ''number''
           else if type = JStr ''select'' then namePayload property ''select''
           else if type = JStr ''multi_select'' then namesPayload property ''multi_select''
           else if type = JStr ''date'' then rawPayload property ''date''
           else if type = JStr ''people'' then rawPayload property ''people''
           else if type = JStr ''files'' then rawPayload property ''files''
           else if type = JStr ''checkbox'' then rawPayload property ''checkbox''
           else if type = JStr ''url'' then rawPayload property ''url''
           else if type = JStr ''email'' then rawPayload property ''email''
           else if type = JStr ''phone_number'' then rawPayload property ''phone_number''
           else if type = JStr ''formula'' then rawPayload property ''formula''
           else if type = JStr ''relation'' then rawPayload property ''relation''
           else if type = JStr ''rollup'' then rawPayload property ''rollup''
           else if type = JStr ''created_time'' then rawPayload property ''created_time''
           else if type = JStr ''created_by'' then rawPayload property ''created_by''
           else if type = JStr ''last_edited_time'' then rawPayload property ''last_edited_time''
           else if type = JStr ''last_edited_by'' then rawPayload property ''last_edited_by''
           else if type = JStr ''status'' then namePayload property ''status''
           else if type = JStr ''unique_id'' then rawPayload property ''unique_id''
           else if type = JStr ''verification'' then rawPayload property ''verification''
           else if type = JStr ''button'' then rawPayload property ''button''
           else Inr JNull))))"

subsection \<open>Reading the fields of an object\<close>

definition field :: "(string \<times> jsval) list \<Rightarrow> string \<Rightarrow> jsval" where
  \<comment> \<open>the own field \<open>key\<close> of an object, \<open>undefined\<close> when the object has none\<close>
  "field fs key = (case map_of fs key of Some v \<Rightarrow> v | None \<Rightarrow> JUndefined)"

definition hasField :: "(string \<times> jsval) list \<Rightarrow> string \<Rightarrow> bool" where
  "hasField fs key = (key \<in> fst ` set fs)"

definition rawKinds :: "string list" where
  \<comment> \<open>the kinds whose payload is returned as it is\<close>
  "rawKinds =
     [''number'', ''date'', ''people'', ''files'', ''checkbox'', ''url'', ''email'',
      ''phone_number'', ''formula'', ''relation'', ''rollup'', ''created_time'', ''created_by'',
      ''last_edited_time'', ''last_edited_by'', ''unique_id'', ''verification'', ''button'']"

definition recognizedKinds :: "string list" where
  "recognizedKinds =
     [''title'', ''rich_text'', ''select'', ''status'', ''multi_select''] @ rawKinds"

definition fullPageWith :: "(string \<times> jsval) list \<Rightarrow> (string \<times> jsval) list \<Rightarrow> bool" where
  \<comment> \<open>the object \<open>page\<close> is a full page whose \<open>properties\<close> field is the object \<open>props\<close>\<close>
  "fullPageWith page props =
     (field page ''object'' = JStr ''page'' \<and> hasField page ''url'' \<and>
      field page ''properties'' = JObj props)"

definition hasProperty ::
  "(string \<times> jsval) list \<Rightarrow> string \<Rightarrow> (string \<times> jsval) list \<Rightarrow> string \<Rightarrow> bool" where
  \<comment> \<open>the properties map holds, under \<open>name\<close>, the object \<open>pr\<close> with the type tag \<open>kind\<close>\<close>
  "hasProperty props name pr kind =
     (map_of props name = Some (JObj pr) \<and> field pr ''type'' = JStr kind)"

subsection \<open>A page fixture\<close>

text \<open>
  A full page in the manner of \<open>createPage\<close> of the unit tests, with one property of each
  treatment: a title, a select with a value, a status without a value, a multi-select,
  a number, and a property of a kind that the helpers do not know.
\<close>

definition exampleTitle :: "RichTextItem list" where
  "exampleTitle =
     [\<lparr>item_type = ''text'', plain_text = Some ''My Page'', href = None,
       annotations = Some \<lparr>bold = True, italic = False, strikethrough = False,
                           underline = False, code = False, color = ''default''\<rparr>,
       item_text = Some \<lparr>content = ''My Page'', link = None\<rparr>, other = []\<rparr>]"

definition exampleTags :: "(string \<times> jsval) list list" where
  "exampleTags =
     [[(''id'', JStr ''1''), (''name'', JStr ''Tag1''), (''color'', JStr ''blue'')],
      [(''id'', JStr ''2''), (''name'', JStr ''Tag2''), (''color'', JStr ''red'')]]"

definition exampleProperties :: "(string \<times> jsval) list" where
  "exampleProperties =
     [(''Name'', JObj [(''id'', JStr ''title''), (''type'', JStr ''title''),
                      (''title'', JArr (map encodeItem exampleTitle))]),
      (''Status'', JObj [(''id'', JStr ''st''), (''type'', JStr ''select''),
                        (''select'', JObj [(''id'', JStr ''1''), (''name'', JStr ''Active''),
                                          (''color'', JStr ''green'')])]),
      (''Stage'', JObj [(''id'', JStr ''sg''), (''type'', JStr ''status''), (''status'', JNull)]),
      (''Tags'', JObj [(''id'', JStr ''tags''), (''type'', JStr ''multi_select''),
                      (''multi_select'', JArr (map JObj exampleTags))]),
      (''Count'', JObj [(''id'', JStr ''count''), (''type'', JStr ''number''),
                       (''number'', JNum 42)]),
      (''Odd'', JObj [(''id'', JStr ''odd''), (''type'', JStr ''unsupported_kind'')])]"

definition examplePage :: "(string \<times> jsval) list" where
  "examplePage =
     [(''object'', JStr ''page''), (''id'', JStr ''page-id''),
      (''properties'', JObj exampleProperties), (''url'', JStr ''https://notion.so/page-id'')]"

chapter \<open>Properties\<close>

section \<open>formatUuid\<close>

lemma hex_lower: "isHexDigit c \<Longrightarrow> isLowerHexDigit (toLowerCase_char c)"
  unfolding isHexDigit_def isLowerHexDigit_def toLowerCase_char_def
  by (auto simp: less_eq_char_def)

lemma lowerHex_not_hyphen: "isLowerHexDigit c \<Longrightarrow> c \<noteq> CHR ''-''"
  unfolding isLowerHexDigit_def by (auto simp: less_eq_char_def)

lemma classRun_append:
  "length a = n \<Longrightarrow> list_all P a \<Longrightarrow> classRun P n (a @ r) = Some r"
  by (simp add: classRun_def)

lemma lit_Cons: "lit c (c # r) = Some r"
  by (simp add: lit_def)

lemma list_all_slice: "list_all P s \<Longrightarrow> list_all P (slice s a b)"
  unfolding slice_def list_all_iff by (meson in_set_dropD in_set_takeD)

lemma length_slice: "b \<le> length s \<Longrightarrow> length (slice s a b) = b - a"
  by (simp add: slice_def)

lemma uuidPattern_groups:
  assumes "length g1 = 8" "length g2 = 4" "length g3 = 4" "length g4 = 4" "length g5 = 12"
    and "list_all h g1" "list_all h g2" "list_all h g3" "list_all h g4" "list_all h g5"
  shows "uuidPattern h (g1 @ ''-'' @ g2 @ ''-'' @ g3 @ ''-'' @ g4 @ ''-'' @ g5)"
  using assms classRun_append[of g5 12 h "[]"]
  by (simp add: uuidPattern_def classRun_append lit_Cons)

lemma take_take_drop: "take a s @ take b (drop a s) = take (a + b) s"
  by (simp add: take_add)

lemma slices_join:
  assumes L: "length s = 32"
  shows "slice s 0 8 @ slice s 8 12 @ slice s 12 16 @ slice s 16 20 @ slice s 20 32 = s"
proof -
  have "take 8 s @ take 4 (drop 8 s) @ take 4 (drop 12 s) @ take 4 (drop 16 s) @ take 12 (drop 20 s)
        = take 8 s @ take 4 (drop 8 s) @ take 4 (drop 12 s) @ take 16 (drop 16 s)"
    using take_take_drop[of 4 "drop 16 s" 12] by simp
  also have "\<dots> = take 8 s @ take 4 (drop 8 s) @ take 20 (drop 12 s)"
    using take_take_drop[of 4 "drop 12 s" 16] by simp
  also have "\<dots> = take 8 s @ take 24 (drop 8 s)"
    using take_take_drop[of 4 "drop 8 s" 20] by simp
  also have "\<dots> = take 32 s"
    using take_take_drop[of 8 s 24] by simp
  finally show ?thesis using L by (simp add: slice_def)
qed

lemma formatUuid_canonical:
  assumes "length h = 32" and "list_all isHexDigit h"
  shows "canonicalPattern (formatUuid h)"
proof -
  let ?l = "toLowerCase h"
  have len: "length ?l = 32" using assms(1) by (simp add: toLowerCase_def)
  have low: "list_all isLowerHexDigit ?l"
    using assms(2) by (simp add: toLowerCase_def list_all_iff hex_lower)
  show ?thesis
    unfolding canonicalPattern_def formatUuid_def Let_def
    by (rule uuidPattern_groups) (simp_all add: length_slice len list_all_slice low)
qed

lemma formatUuid_strip:
  assumes "length h = 32" and "list_all isHexDigit h"
  shows "filter (\<lambda>c. c \<noteq> CHR ''-'') (formatUuid h) = toLowerCase h"
proof -
  let ?l = "toLowerCase h"
  have len: "length ?l = 32" using assms(1) by (simp add: toLowerCase_def)
  have low: "list_all isLowerHexDigit ?l"
    using assms(2) by (simp add: toLowerCase_def list_all_iff hex_lower)
  have nohy: "\<And>a b. filter (\<lambda>c. c \<noteq> CHR ''-'') (slice ?l a b) = slice ?l a b"
    using list_all_slice[OF low] lowerHex_not_hyphen by (simp add: list_all_iff)
  show ?thesis
    unfolding formatUuid_def Let_def using slices_join[OF len] by (simp add: nohy)
qed

text \<open>
  Claim C8. For a string \<open>h\<close> of exactly 32 hexadecimal digits of any letter case,
  \<open>formatUuid h\<close> matches the canonical lower-case 8-4-4-4-12 pattern, and deleting its
  hyphens gives \<open>h\<close> in lower case.
\<close>

theorem formatUuid_canonical_roundtrip:
  assumes "length h = 32" and "list_all isHexDigit h"
  shows "canonicalPattern (formatUuid h) \<and>
         filter (\<lambda>c. c \<noteq> CHR ''-'') (formatUuid h) = toLowerCase h"
  using assms by (simp add: formatUuid_canonical formatUuid_strip)

theorem formatUuid_canonical_roundtrip_witness:
  "canonicalPattern (formatUuid ''ABC123DEF456789012345678901234AB'') \<and>
   filter (\<lambda>c. c \<noteq> CHR ''-'') (formatUuid ''ABC123DEF456789012345678901234AB'')
     = toLowerCase ''ABC123DEF456789012345678901234AB'' \<and>
   formatUuid ''ABC123DEF456789012345678901234AB'' = ''abc123de-f456-7890-1234-5678901234ab''"
proof -
  have 1: "length ''ABC123DEF456789012345678901234AB'' = 32" by simp
  have 2: "list_all isHexDigit ''ABC123DEF456789012345678901234AB''"
    by code_simp
  have 3: "formatUuid ''ABC123DEF456789012345678901234AB'' = ''abc123de-f456-7890-1234-5678901234ab''"
    by code_simp
  from formatUuid_canonical_roundtrip[OF 1 2] 3 show ?thesis by simp
qed

section \<open>extractNotionId: the canonical form is a fixed point\<close>

lemma lowerHex_is_hex: "isLowerHexDigit c \<Longrightarrow> isHexDigit c"
  by (simp add: isHexDigit_def)

lemma lowerHex_lower_id: "isLowerHexDigit c \<Longrightarrow> toLowerCase_char c = c"
  unfolding isLowerHexDigit_def toLowerCase_char_def by (auto simp: less_eq_char_def)

lemma lowerHex_not_space: "isLowerHexDigit c \<Longrightarrow> \<not> isWhiteSpace c"
  unfolding isLowerHexDigit_def isWhiteSpace_def by (auto simp: less_eq_char_def)

lemma hyphen_lower_id: "toLowerCase_char CHR ''-'' = CHR ''-''"
  by (simp add: toLowerCase_char_def less_eq_char_def)

lemma classRun_SomeD:
  "classRun P n s = Some r \<Longrightarrow> \<exists>g. s = g @ r \<and> length g = n \<and> list_all P g"
  by (rule exI[of _ "take n s"]) (auto simp: classRun_def split: if_splits)

lemma lit_SomeD: "lit c s = Some r \<Longrightarrow> s = c # r"
  by (auto simp: lit_def split: list.splits if_splits)

lemma capture_SomeD:
  "capture P n s = Some (g, r) \<Longrightarrow> s = g @ r \<and> length g = n \<and> list_all P g"
  by (auto simp: capture_def split: if_splits)

lemma uuidPattern_groupsD:
  assumes "uuidPattern h s"
  shows "\<exists>g1 g2 g3 g4 g5. s = g1 @ ''-'' @ g2 @ ''-'' @ g3 @ ''-'' @ g4 @ ''-'' @ g5 \<and>
           length g1 = 8 \<and> length g2 = 4 \<and> length g3 = 4 \<and> length g4 = 4 \<and> length g5 = 12 \<and>
           list_all h g1 \<and> list_all h g2 \<and> list_all h g3 \<and> list_all h g4 \<and> list_all h g5"
proof -
  from assms obtain r1 r2 r3 r4 r5 r6 r7 r8 where
    c1: "classRun h 8 s = Some r1" and l1: "lit CHR ''-'' r1 = Some r2" and
    c2: "classRun h 4 r2 = Some r3" and l2: "lit CHR ''-'' r3 = Some r4" and
    c3: "classRun h 4 r4 = Some r5" and l3: "lit CHR ''-'' r5 = Some r6" and
    c4: "classRun h 4 r6 = Some r7" and l4: "lit CHR ''-'' r7 = Some r8" and
    c5: "classRun h 12 r8 = Some []"
    unfolding uuidPattern_def by (auto simp: bind_eq_Some_conv)
  from classRun_SomeD[OF c1] obtain g1 where g1: "s = g1 @ r1" "length g1 = 8" "list_all h g1" by blast
  from classRun_SomeD[OF c2] obtain g2 where g2: "r2 = g2 @ r3" "length g2 = 4" "list_all h g2" by blast
  from classRun_SomeD[OF c3] obtain g3 where g3: "r4 = g3 @ r5" "length g3 = 4" "list_all h g3" by blast
  from classRun_SomeD[OF c4] obtain g4 where g4: "r6 = g4 @ r7" "length g4 = 4" "list_all h g4" by blast
  from classRun_SomeD[OF c5] obtain g5 where g5: "r8 = g5 @ []" "length g5 = 12" "list_all h g5" by blast
  have "s = g1 @ ''-'' @ g2 @ ''-'' @ g3 @ ''-'' @ g4 @ ''-'' @ g5"
    using g1(1) g2(1) g3(1) g4(1) g5(1) lit_SomeD[OF l1] lit_SomeD[OF l2] lit_SomeD[OF l3] lit_SomeD[OF l4]
    by simp
  with g1 g2 g3 g4 g5 show ?thesis by blast
qed

lemma uuidPattern_mono:
  assumes "uuidPattern h s" and "\<And>c. h c \<Longrightarrow> h' c"
  shows "uuidPattern h' s"
proof -
  from uuidPattern_groupsD[OF assms(1)] obtain g1 g2 g3 g4 g5 where
    s: "s = g1 @ ''-'' @ g2 @ ''-'' @ g3 @ ''-'' @ g4 @ ''-'' @ g5" and
    l: "length g1 = 8" "length g2 = 4" "length g3 = 4" "length g4 = 4" "length g5 = 12" and
    a: "list_all h g1" "list_all h g2" "list_all h g3" "list_all h g4" "list_all h g5"
    by blast
  have "list_all h' g1" "list_all h' g2" "list_all h' g3" "list_all h' g4" "list_all h' g5"
    using a assms(2) by (auto simp: list_all_iff)
  then show ?thesis unfolding s using l by (intro uuidPattern_groups)
qed

lemma uuidRegex_lower_canonical:
  assumes "uuidRegex_test t"
  shows "canonicalPattern (toLowerCase t)"
proof -
  from uuidPattern_groupsD[OF assms[unfolded uuidRegex_test_def]] obtain g1 g2 g3 g4 g5 where
    s: "t = g1 @ ''-'' @ g2 @ ''-'' @ g3 @ ''-'' @ g4 @ ''-'' @ g5" and
    l: "length g1 = 8" "length g2 = 4" "length g3 = 4" "length g4 = 4" "length g5 = 12" and
    a: "list_all isHexDigit g1" "list_all isHexDigit g2" "list_all isHexDigit g3"
       "list_all isHexDigit g4" "list_all isHexDigit g5"
    by blast
  have low: "\<And>g. list_all isHexDigit g \<Longrightarrow> list_all isLowerHexDigit (map toLowerCase_char g)"
    by (simp add: list_all_iff hex_lower)
  have "toLowerCase t = map toLowerCase_char g1 @ ''-'' @ map toLowerCase_char g2 @ ''-'' @
          map toLowerCase_char g3 @ ''-'' @ map toLowerCase_char g4 @ ''-'' @ map toLowerCase_char g5"
    by (simp add: s toLowerCase_def hyphen_lower_id)
  moreover have "uuidPattern isLowerHexDigit \<dots>"
    by (intro uuidPattern_groups) (simp_all add: l low a)
  ultimately show ?thesis by (simp add: canonicalPattern_def)
qed

lemma trim_id:
  assumes "s \<noteq> []" "\<not> isWhiteSpace (hd s)" "\<not> isWhiteSpace (last s)"
  shows "trim s = s"
proof -
  have d: "\<And>xs. xs \<noteq> [] \<Longrightarrow> \<not> isWhiteSpace (hd xs) \<Longrightarrow> dropWhile isWhiteSpace xs = xs"
    by (case_tac xs) auto
  have "dropWhile isWhiteSpace s = s" using assms d by blast
  moreover have "dropWhile isWhiteSpace (rev s) = rev s"
    using assms d[of "rev s"] by (simp add: hd_rev)
  ultimately show ?thesis by (simp add: trim_def)
qed

lemma canonical_fixed:
  assumes "canonicalPattern y"
  shows "extractNotionId y = Some y"
proof -
  from uuidPattern_groupsD[OF assms[unfolded canonicalPattern_def]] obtain g1 g2 g3 g4 g5 where
    s: "y = g1 @ ''-'' @ g2 @ ''-'' @ g3 @ ''-'' @ g4 @ ''-'' @ g5" and
    l: "length g1 = 8" "length g2 = 4" "length g3 = 4" "length g4 = 4" "length g5 = 12" and
    a: "list_all isLowerHexDigit g1" "list_all isLowerHexDigit g2" "list_all isLowerHexDigit g3"
       "list_all isLowerHexDigit g4" "list_all isLowerHexDigit g5"
    by blast
  have ne: "y \<noteq> []" using s by simp
  have g1ne: "g1 \<noteq> []" and g5ne: "g5 \<noteq> []" using l by auto
  have "hd y = hd g1" using s g1ne by simp
  moreover have "last y = last g5" using s g5ne by simp
  moreover have "isLowerHexDigit (hd g1)" using a(1) g1ne by (cases g1) simp_all
  moreover have "isLowerHexDigit (last g5)" using a(5) g5ne by (simp add: list_all_iff)
  ultimately have tr: "trim y = y" using trim_id[OF ne] lowerHex_not_space by simp
  have up: "uuidRegex_test y"
    unfolding uuidRegex_test_def using assms[unfolded canonicalPattern_def] lowerHex_is_hex
    by (rule uuidPattern_mono)
  have idm: "\<And>g. list_all isLowerHexDigit g \<Longrightarrow> map toLowerCase_char g = g"
    by (simp add: list_all_iff lowerHex_lower_id map_idI)
  have lo: "toLowerCase y = y"
    by (simp add: s toLowerCase_def hyphen_lower_id idm a)
  show ?thesis using ne tr up lo by (simp add: extractNotionId_def)
qed

lemma regexSearch_SomeD:
  "regexSearch f s = Some g \<Longrightarrow> \<exists>t. f t = Some g"
  by (induction s) (auto split: option.splits)

lemma pathTail_hex: "pathTail s = Some g \<Longrightarrow> length g = 32 \<and> list_all isHexDigit g"
  by (auto simp: pathTail_def bind_eq_Some_conv split: option.splits list.splits if_splits
           dest!: capture_SomeD)

lemma pathStar_hex: "pathStar s k = Some g \<Longrightarrow> length g = 32 \<and> list_all isHexDigit g"
  by (induction k) (auto split: option.splits dest: pathTail_hex)

lemma pathAt_hex: "pathAt s = Some g \<Longrightarrow> length g = 32 \<and> list_all isHexDigit g"
  by (auto simp: pathAt_def split: option.splits dest: pathStar_hex)

lemma queryAt_hex: "queryAt s = Some g \<Longrightarrow> length g = 32 \<and> list_all isHexDigit g"
  by (auto simp: queryAt_def bind_eq_Some_conv split: option.splits list.splits if_splits
           dest!: capture_SomeD)

lemma anyAt_hex: "anyAt s = Some g \<Longrightarrow> length g = 32 \<and> list_all isHexDigit g"
  by (auto simp: anyAt_def dest!: capture_SomeD)

lemma compact_hex: "compactUuidRegex_test s \<Longrightarrow> length s = 32 \<and> list_all isHexDigit s"
  by (auto simp: compactUuidRegex_test_def dest!: classRun_SomeD)

lemma extractNotionId_canonical:
  assumes "extractNotionId x = Some y"
  shows "canonicalPattern y"
proof -
  let ?t = "trim x"
  consider (u) "uuidRegex_test ?t" "y = toLowerCase ?t"
    | (h) h where "y = formatUuid h" "length h = 32" "list_all isHexDigit h"
    using assms
    by (auto simp: extractNotionId_def Let_def split: if_splits option.splits
          dest!: regexSearch_SomeD dest: compact_hex pathAt_hex queryAt_hex anyAt_hex)
  then show ?thesis
  proof cases
    case u then show ?thesis by (simp add: uuidRegex_lower_canonical)
  next
    case h then show ?thesis by (simp add: formatUuid_canonical)
  qed
qed

text \<open>
  Claim C9. Whenever \<open>extractNotionId x\<close> is not \<open>null\<close>, applying \<open>extractNotionId\<close> to
  its result gives that result again: the canonical form is a fixed point of extraction.
\<close>

theorem extractNotionId_idempotent:
  assumes "extractNotionId x = Some y"
  shows "extractNotionId y = Some y"
  using assms by (intro canonical_fixed extractNotionId_canonical)

theorem extractNotionId_idempotent_witness:
  "extractNotionId ''https://www.notion.so/myworkspace/Test-Page-123E4567e89b12d3a456426614174000''
     = Some ''123e4567-e89b-12d3-a456-426614174000'' \<and>
   extractNotionId ''123e4567-e89b-12d3-a456-426614174000'' = Some ''123e4567-e89b-12d3-a456-426614174000''"
proof -
  have 1: "extractNotionId ''https://www.notion.so/myworkspace/Test-Page-123E4567e89b12d3a456426614174000''
     = Some ''123e4567-e89b-12d3-a456-426614174000''"
    by code_simp
  from extractNotionId_idempotent[OF 1] 1 show ?thesis by simp
qed

section \<open>extractNotionId: the order of the searches\<close>

lemma hex_not_delim: "isHexDigit c \<Longrightarrow> \<not> isPathDelim c"
  unfolding isHexDigit_def isLowerHexDigit_def isPathDelim_def by (auto simp: less_eq_char_def)

lemma hex_not_hyphen: "isHexDigit c \<Longrightarrow> c \<noteq> CHR ''-''"
  unfolding isHexDigit_def isLowerHexDigit_def by (auto simp: less_eq_char_def)

lemma hyphen_not_delim: "\<not> isPathDelim CHR ''-''"
  by (simp add: isPathDelim_def)

lemma capture_append:
  "length g = n \<Longrightarrow> list_all P g \<Longrightarrow> capture P n (g @ r) = Some (g, r)"
  by (simp add: capture_def)

lemma capture_exact:
  "length g = n \<Longrightarrow> list_all P g \<Longrightarrow> capture P n g = Some (g, [])"
  by (simp add: capture_def)

lemma pathTail_SomeD:
  assumes "pathTail s = Some g"
  shows "\<exists>post. s = ''-'' @ g @ post \<and> length g = 32 \<and> list_all isHexDigit g \<and>
           (post = [] \<or> isPathDelim (hd post))"
proof -
  from assms obtain r1 r where 1: "lit CHR ''-'' s = Some r1" and 2: "capture isHexDigit 32 r1 = Some (g, r)"
    and 3: "r = [] \<or> isPathDelim (hd r)"
    by (auto simp: pathTail_def bind_eq_Some_conv split: option.splits list.splits if_splits)
  from lit_SomeD[OF 1] capture_SomeD[OF 2] 3 show ?thesis by auto
qed

lemma pathTail_segment:
  assumes "length g = 32" "list_all isHexDigit g" "post = [] \<or> isPathDelim (hd post)"
  shows "pathTail (''-'' @ g @ post) = Some g"
  using assms by (cases post) (auto simp: pathTail_def lit_Cons capture_append capture_exact)

lemma pathTail_not_hyphen: "s = [] \<or> hd s \<noteq> CHR ''-'' \<Longrightarrow> pathTail s = None"
  by (cases s) (auto simp: pathTail_def lit_def)

lemma pathStar_SomeD: "pathStar s n = Some g \<Longrightarrow> \<exists>k\<le>n. pathTail (drop k s) = Some g"
proof (induction n)
  case 0 then show ?case by simp
next
  case (Suc n)
  show ?case
  proof (cases "pathTail (drop (Suc n) s)")
    case None
    with Suc obtain k where "k \<le> n" "pathTail (drop k s) = Some g" by auto
    then show ?thesis using le_SucI by blast
  next
    case (Some a)
    with Suc.prems have "a = g" by simp
    with Some show ?thesis by blast
  qed
qed

lemma pathStar_first:
  assumes "k \<le> n" "pathTail (drop k s) = Some g" "\<forall>j. k < j \<and> j \<le> n \<longrightarrow> pathTail (drop j s) = None"
  shows "pathStar s n = Some g"
  using assms
proof (induction n)
  case 0 then show ?case by simp
next
  case (Suc n)
  show ?case
  proof (cases "k = Suc n")
    case True with Suc.prems show ?thesis by simp
  next
    case False
    with Suc.prems have "k \<le> n" and none: "pathTail (drop (Suc n) s) = None" by auto
    with Suc show ?thesis by simp
  qed
qed

lemma takeWhile_segment:
  assumes "list_all (\<lambda>c. \<not> isPathDelim c) seg" "post = [] \<or> isPathDelim (hd post)"
  shows "takeWhile (\<lambda>c. \<not> isPathDelim c) (seg @ post) = seg"
  using assms by (cases post) (auto simp: list_all_iff takeWhile_append2 intro!: takeWhile_eq_all_conv[THEN iffD2])

lemma pathAt_segment:
  assumes "pathSegment s A"
  shows "pathAt s = Some A"
proof -
  from assms obtain slug post where
    s: "s = ''/'' @ slug @ ''-'' @ A @ post" and slug: "list_all (\<lambda>c. \<not> isPathDelim c) slug" and
    A: "length A = 32" "list_all isHexDigit A" and post: "post = [] \<or> isPathDelim (hd post)"
    unfolding pathSegment_def by blast
  let ?r = "slug @ ''-'' @ A @ post"
  let ?seg = "slug @ ''-'' @ A"
  have nd: "list_all (\<lambda>c. \<not> isPathDelim c) ?seg"
    using slug A(2) by (auto simp: list_all_iff hex_not_delim hyphen_not_delim)
  have tw: "takeWhile (\<lambda>c. \<not> isPathDelim c) ?r = ?seg"
    using takeWhile_segment[OF nd post] by simp
  have at: "pathTail (drop (length slug) ?r) = Some A"
    using pathTail_segment[OF A post] by simp
  have later: "pathTail (drop j ?r) = None" if j: "length slug < j" "j \<le> length ?seg" for j
  proof -
    obtain i where i: "j = length slug + 1 + i" "i \<le> 32"
      using j A(1) by (auto simp: less_iff_Suc_add)
    have d: "drop j ?r = drop i A @ post" using i A(1) by simp
    show ?thesis
    proof (cases "i < 32")
      case True
      then have "drop i A \<noteq> []" using A(1) by simp
      moreover have "hd (drop i A) \<in> set A" using True A(1) by (simp add: hd_drop_conv_nth)
      ultimately have "hd (drop j ?r) \<noteq> CHR ''-''"
        using d A(2) hex_not_hyphen by (auto simp: list_all_iff)
      then show ?thesis by (simp add: pathTail_not_hyphen)
    next
      case False
      with i have "i = 32" by simp
      with A(1) d have "drop j ?r = post" by simp
      moreover have "post = [] \<or> hd post \<noteq> CHR ''-''" using post hyphen_not_delim by auto
      ultimately show ?thesis by (simp add: pathTail_not_hyphen)
    qed
  qed
  have st: "pathStar ?r (length ?seg) = Some A"
    by (rule pathStar_first[of "length slug"]) (use at later in auto)
  have "pathAt s = pathStar ?r (length (takeWhile (\<lambda>c. \<not> isPathDelim c) ?r))"
    by (simp add: s pathAt_def lit_Cons del: pathStar.simps)
  also have "\<dots> = pathStar ?r (length ?seg)" by (simp only: tw)
  finally show ?thesis using st by simp
qed

lemma pathAt_SomeD:
  assumes "pathAt s = Some A"
  shows "pathSegment s A"
proof -
  from assms obtain r where r: "lit CHR ''/'' s = Some r"
    and st: "pathStar r (length (takeWhile (\<lambda>c. \<not> isPathDelim c) r)) = Some A"
    by (auto simp: pathAt_def split: option.splits)
  from pathStar_SomeD[OF st] obtain k where
    k: "k \<le> length (takeWhile (\<lambda>c. \<not> isPathDelim c) r)" and t: "pathTail (drop k r) = Some A" by blast
  from pathTail_SomeD[OF t] obtain post where
    d: "drop k r = ''-'' @ A @ post" and A: "length A = 32" "list_all isHexDigit A"
    and post: "post = [] \<or> isPathDelim (hd post)" by blast
  have "take k r = take k (takeWhile (\<lambda>c. \<not> isPathDelim c) r @ dropWhile (\<lambda>c. \<not> isPathDelim c) r)"
    by simp
  also have "\<dots> = take k (takeWhile (\<lambda>c. \<not> isPathDelim c) r)"
    using k by (simp del: takeWhile_dropWhile_id)
  finally have "set (take k r) \<subseteq> set (takeWhile (\<lambda>c. \<not> isPathDelim c) r)"
    by (simp add: set_take_subset)
  then have slug: "list_all (\<lambda>c. \<not> isPathDelim c) (take k r)"
    by (auto simp: list_all_iff dest: set_takeWhileD)
  have "r = take k r @ ''-'' @ A @ post" using d by (metis append_take_drop_id)
  then have "s = ''/'' @ take k r @ ''-'' @ A @ post" using lit_SomeD[OF r] by simp
  with slug A post show ?thesis unfolding pathSegment_def by blast
qed

lemma regexSearch_here: "f s = Some a \<Longrightarrow> regexSearch f s = Some a"
  by (cases s) simp_all

lemma regexSearch_skip:
  "(\<forall>i<length pre. f (drop i (pre @ s)) = None) \<Longrightarrow> regexSearch f (pre @ s) = regexSearch f s"
proof (induction pre)
  case Nil then show ?case by simp
next
  case (Cons c pre)
  have "f (c # pre @ s) = None" using Cons.prems[rule_format, of 0] by simp
  moreover have "\<forall>i<length pre. f (drop i (pre @ s)) = None"
    using Cons.prems[rule_format, of "Suc i" for i] by simp
  ultimately show ?case using Cons.IH by simp
qed

lemma litI_append:
  "map toLowerCase_char n = map toLowerCase_char p \<Longrightarrow> litI p (n @ r) = Some r"
  using map_eq_imp_length_eq[of toLowerCase_char n toLowerCase_char p] by (simp add: litI_def)

lemma litI_SomeD:
  "litI p s = Some r \<Longrightarrow> \<exists>n. s = n @ r \<and> map toLowerCase_char n = map toLowerCase_char p"
  by (rule exI[of _ "take (length p) s"]) (auto simp: litI_def split: if_splits)


lemma lower_chars:
  "toLowerCase_char CHR ''p'' = CHR ''p''" "toLowerCase_char CHR ''a'' = CHR ''a''"
  "toLowerCase_char CHR ''g'' = CHR ''g''" "toLowerCase_char CHR ''e'' = CHR ''e''"
  "toLowerCase_char CHR ''_'' = CHR ''_''" "toLowerCase_char CHR ''i'' = CHR ''i''"
  "toLowerCase_char CHR ''d'' = CHR ''d''" "toLowerCase_char CHR ''t'' = CHR ''t''"
  "toLowerCase_char CHR ''b'' = CHR ''b''" "toLowerCase_char CHR ''s'' = CHR ''s''"
  "toLowerCase_char CHR ''='' = CHR ''=''"
  by (simp_all add: toLowerCase_char_def less_eq_char_def)

lemma lower_code:
  "(of_char (toLowerCase_char c) :: nat) =
     (if (CHR ''A'' \<le> c \<and> c \<le> CHR ''Z'') \<or> (CHR 0xC0 \<le> c \<and> c \<le> CHR 0xDE \<and> c \<noteq> CHR 0xD7)
      then of_char c + 32 else of_char c)"
  by (auto simp: toLowerCase_char_def less_eq_char_def)

lemma lower_eq_equals: "toLowerCase_char z = CHR ''='' \<Longrightarrow> z = CHR ''=''"
proof -
  assume a: "toLowerCase_char z = CHR ''=''"
  have "(of_char (toLowerCase_char z) :: nat) = 61" by (simp add: a)
  then have "(of_char z :: nat) = 61"
    unfolding lower_code by (auto simp: less_eq_char_def split: if_splits)
  then have "(of_char z :: nat) = of_char CHR ''=''" by simp
  then show ?thesis by (simp only: of_char_eq_iff)
qed

lemma queryTail:
  assumes "map toLowerCase_char n = map toLowerCase_char p" "length B = 32" "list_all isHexDigit B"
  shows "litI p (n @ ''='' @ B @ post) \<bind> litI ''='' \<bind> capture isHexDigit 32 = Some (B, post)"
proof -
  have "litI p (n @ ''='' @ B @ post) = Some (''='' @ B @ post)" using assms(1) by (rule litI_append)
  moreover have "litI ''='' (''='' @ B @ post) = Some (B @ post)" by (rule litI_append) simp
  moreover have "capture isHexDigit 32 (B @ post) = Some (B, post)"
    using assms(2,3) by (cases post) (simp_all add: capture_append capture_exact)
  ultimately show ?thesis by simp
qed

lemma queryTail_SomeD:
  assumes "litI p r \<bind> litI ''='' \<bind> capture isHexDigit 32 = Some (g, post)"
  shows "\<exists>n. r = n @ ''='' @ g @ post \<and> map toLowerCase_char n = map toLowerCase_char p \<and>
           length g = 32 \<and> list_all isHexDigit g"
proof -
  from assms obtain r1 r2 where 1: "litI p r = Some r1" and 2: "litI ''='' r1 = Some r2"
    and 3: "capture isHexDigit 32 r2 = Some (g, post)"
    by (auto simp: bind_eq_Some_conv)
  from litI_SomeD[OF 1] obtain n where n: "r = n @ r1" "map toLowerCase_char n = map toLowerCase_char p" by blast
  from litI_SomeD[OF 2] obtain e where e: "r1 = e @ r2" "map toLowerCase_char e = map toLowerCase_char ''=''" by blast
  have "e = ''=''" using e(2) lower_eq_equals
    by (auto simp: map_eq_Cons_conv lower_chars)
  with n e capture_SomeD[OF 3] show ?thesis by auto
qed

lemma queryAt_SomeD:
  assumes "queryAt s = Some B"
  shows "querySegment s B"
proof -
  from assms obtain c r where s: "s = c # r" and c: "c = CHR ''?'' \<or> c = CHR ''&''"
    by (cases s) (auto simp: queryAt_def split: if_splits)
  from assms s c obtain p post where p: "p \<in> {''p'', ''page_id'', ''database_id''}"
    and m: "litI p r \<bind> litI ''='' \<bind> capture isHexDigit 32 = Some (B, post)"
    by (auto simp: queryAt_def split: option.splits)
  from queryTail_SomeD[OF m] obtain n where n: "r = n @ ''='' @ B @ post"
    "map toLowerCase_char n = map toLowerCase_char p" "length B = 32" "list_all isHexDigit B" by blast
  have "toLowerCase n \<in> {''p'', ''page_id'', ''database_id''}"
    using p n(2) unfolding toLowerCase_def by (auto simp: lower_chars)
  with s c n show ?thesis unfolding querySegment_def by auto
qed

lemma litI_p_page_id:
  assumes "map toLowerCase_char n = ''page_id''"
  shows "litI ''p'' (n @ r) \<bind> litI ''='' = None"
proof -
  from assms obtain a b m where n: "n = a # b # m" "toLowerCase_char a = CHR ''p''"
    "toLowerCase_char b = CHR ''a''"
    by (auto simp: map_eq_Cons_conv)
  then show ?thesis by (simp add: litI_def lower_chars)
qed

lemma litI_p_database_id:
  assumes "map toLowerCase_char n = ''database_id''"
  shows "litI ''p'' (n @ r) = None"
proof -
  from assms obtain a m where n: "n = a # m" "toLowerCase_char a = CHR ''d''"
    by (auto simp: map_eq_Cons_conv)
  then show ?thesis by (simp add: litI_def lower_chars)
qed

lemma litI_page_id_database_id:
  assumes "map toLowerCase_char n = ''database_id''"
  shows "litI ''page_id'' (n @ r) = None"
proof -
  from assms obtain a m where n: "n = a # m" "toLowerCase_char a = CHR ''d''"
    by (auto simp: map_eq_Cons_conv)
  then show ?thesis by (simp add: litI_def lower_chars)
qed

lemma queryAt_segment:
  assumes "querySegment s B"
  shows "queryAt s = Some B"
proof -
  from assms obtain c name post where
    s: "s = [c] @ name @ ''='' @ B @ post" and c: "c = CHR ''?'' \<or> c = CHR ''&''" and
    name: "toLowerCase name \<in> {''p'', ''page_id'', ''database_id''}" and
    B: "length B = 32" "list_all isHexDigit B"
    unfolding querySegment_def by blast
  define r where "r = name @ ''='' @ B @ post"
  define alt where "alt = (\<lambda>p. litI p r \<bind> litI ''='' \<bind> capture isHexDigit 32)"
  have q: "queryAt s =
      (case alt ''p'' of Some (g, _) \<Rightarrow> Some g | None \<Rightarrow>
      (case alt ''page_id'' of Some (g, _) \<Rightarrow> Some g | None \<Rightarrow>
      (case alt ''database_id'' of Some (g, _) \<Rightarrow> Some g | None \<Rightarrow> None)))"
  proof -
    have "s = c # r" by (simp add: s r_def)
    then show ?thesis using c unfolding queryAt_def alt_def by simp
  qed
  have ok: "alt p = Some (B, post)" if "map toLowerCase_char name = map toLowerCase_char p" for p
    unfolding alt_def r_def using that B by (rule queryTail)
  from name consider (p) "map toLowerCase_char name = ''p''"
    | (page) "map toLowerCase_char name = ''page_id''"
    | (db) "map toLowerCase_char name = ''database_id''"
    by (auto simp: toLowerCase_def)
  then show ?thesis
  proof cases
    case p
    then have "alt ''p'' = Some (B, post)" by (intro ok) (simp add: lower_chars)
    then show ?thesis by (simp add: q)
  next
    case page
    have "alt ''p'' = None" unfolding alt_def r_def litI_p_page_id[OF page] by simp
    moreover have "alt ''page_id'' = Some (B, post)" using page by (intro ok) (simp add: lower_chars)
    ultimately show ?thesis by (simp add: q)
  next
    case db
    have "alt ''p'' = None" using litI_p_database_id[OF db] by (simp add: alt_def r_def)
    moreover have "alt ''page_id'' = None"
      using litI_page_id_database_id[OF db] by (simp add: alt_def r_def)
    moreover have "alt ''database_id'' = Some (B, post)"
      using db by (intro ok) (simp add: lower_chars)
    ultimately show ?thesis by (simp add: q)
  qed
qed

lemma regexSearch_None:
  "(\<forall>i\<le>length s. f (drop i s) = None) \<Longrightarrow> regexSearch f s = None"
proof (induction s)
  case Nil then show ?case by simp
next
  case (Cons c s)
  have "f (c # s) = None" using Cons.prems[rule_format, of 0] by simp
  moreover have "\<forall>i\<le>length s. f (drop i s) = None"
    using Cons.prems[rule_format, of "Suc i" for i] by simp
  ultimately show ?case using Cons.IH by simp
qed

lemma uuidPattern_chars:
  assumes "uuidPattern h s" "c \<in> set s"
  shows "h c \<or> c = CHR ''-''"
proof -
  from uuidPattern_groupsD[OF assms(1)] obtain g1 g2 g3 g4 g5 where
    s: "s = g1 @ ''-'' @ g2 @ ''-'' @ g3 @ ''-'' @ g4 @ ''-'' @ g5" and
    a: "list_all h g1" "list_all h g2" "list_all h g3" "list_all h g4" "list_all h g5"
    by blast
  then show ?thesis using assms(2) by (auto simp: list_all_iff)
qed

lemma not_id_if_other_char:
  assumes "c \<in> set t" "\<not> isHexDigit c" "c \<noteq> CHR ''-''"
  shows "\<not> uuidRegex_test t \<and> \<not> compactUuidRegex_test t"
proof -
  have "\<not> uuidRegex_test t"
    using uuidPattern_chars[of isHexDigit t c] assms by (auto simp: uuidRegex_test_def)
  moreover have "\<not> compactUuidRegex_test t"
    using compact_hex[of t] assms by (auto simp: list_all_iff)
  ultimately show ?thesis by simp
qed

lemma delim_not_hex: "isPathDelim c \<Longrightarrow> \<not> isHexDigit c \<and> c \<noteq> CHR ''-''"
  using hex_not_delim hyphen_not_delim by blast

lemma amp_not_hex: "\<not> isHexDigit CHR ''&''"
  by (simp add: isHexDigit_def isLowerHexDigit_def less_eq_char_def)

lemma extract_path:
  assumes t: "trim x = pre @ s" and seg: "pathSegment s A"
    and first: "\<forall>i<length pre. \<forall>A'. \<not> pathSegment (drop i (trim x)) A'"
  shows "extractNotionId x = Some (formatUuid A)"
proof -
  have "CHR ''/'' \<in> set (trim x)" using t seg by (auto simp: pathSegment_def)
  then have noid: "\<not> uuidRegex_test (trim x)" "\<not> compactUuidRegex_test (trim x)"
    using not_id_if_other_char[of "CHR ''/''" "trim x"] delim_not_hex[of "CHR ''/''"]
    by (simp_all add: isPathDelim_def)
  have ne: "x \<noteq> []" using t seg by (auto simp: trim_def pathSegment_def)
  have "\<forall>i<length pre. pathAt (drop i (pre @ s)) = None"
  proof (intro allI impI)
    fix i assume "i < length pre"
    with first have "\<forall>A'. \<not> pathSegment (drop i (pre @ s)) A'" by (simp add: t)
    then show "pathAt (drop i (pre @ s)) = None"
      using pathAt_SomeD by (cases "pathAt (drop i (pre @ s))") auto
  qed
  then have "regexSearch pathAt (trim x) = regexSearch pathAt s"
    unfolding t by (rule regexSearch_skip)
  also have "\<dots> = Some A" using pathAt_segment[OF seg] by (rule regexSearch_here)
  finally show ?thesis using ne noid by (simp add: extractNotionId_def)
qed

lemma extract_query:
  assumes nopath: "\<forall>i A'. \<not> pathSegment (drop i (trim x)) A'"
    and t: "trim x = pre @ q" and seg: "querySegment q B"
    and first: "\<forall>i<length pre. \<forall>B'. \<not> querySegment (drop i (trim x)) B'"
  shows "extractNotionId x = Some (formatUuid B)"
proof -
  from seg obtain c name post where q: "q = [c] @ name @ ''='' @ B @ post"
    and c2: "c = CHR ''?'' \<or> c = CHR ''&''"
    unfolding querySegment_def by blast
  have c: "c \<in> set (trim x)" "c = CHR ''?'' \<or> c = CHR ''&''"
    using t q c2 by simp_all
  then have "\<not> isHexDigit c \<and> c \<noteq> CHR ''-''"
    using delim_not_hex[of "CHR ''?''"] amp_not_hex by (auto simp: isPathDelim_def)
  then have noid: "\<not> uuidRegex_test (trim x)" "\<not> compactUuidRegex_test (trim x)"
    using not_id_if_other_char[OF c(1)] by simp_all
  have ne: "x \<noteq> []" using t q by (auto simp: trim_def)
  have "\<forall>i\<le>length (trim x). pathAt (drop i (trim x)) = None"
  proof (intro allI impI)
    fix i
    show "pathAt (drop i (trim x)) = None"
      using nopath pathAt_SomeD by (cases "pathAt (drop i (trim x))") auto
  qed
  then have np: "regexSearch pathAt (trim x) = None" by (rule regexSearch_None)
  have "\<forall>i<length pre. queryAt (drop i (pre @ q)) = None"
  proof (intro allI impI)
    fix i assume "i < length pre"
    with first have "\<forall>B'. \<not> querySegment (drop i (pre @ q)) B'" by (simp add: t)
    then show "queryAt (drop i (pre @ q)) = None"
      using queryAt_SomeD by (cases "queryAt (drop i (pre @ q))") auto
  qed
  then have "regexSearch queryAt (trim x) = regexSearch queryAt q"
    unfolding t by (rule regexSearch_skip)
  also have "\<dots> = Some B" using queryAt_segment[OF seg] by (rule regexSearch_here)
  finally show ?thesis using ne noid np by (simp add: extractNotionId_def)
qed

lemma formatUuid_inj:
  assumes "length A = 32" "list_all isHexDigit A" "length B = 32" "list_all isHexDigit B"
    and "formatUuid A = formatUuid B"
  shows "toLowerCase A = toLowerCase B"
  using formatUuid_strip[OF assms(1,2)] formatUuid_strip[OF assms(3,4)] assms(5) by simp

lemma no_pathSegment: "pathAt s = None \<Longrightarrow> \<not> pathSegment s A"
  using pathAt_segment by fastforce

lemma no_querySegment: "queryAt s = None \<Longrightarrow> \<not> querySegment s B"
  using queryAt_segment by fastforce

lemma all_below_upt: "list_all P [0..<n] \<Longrightarrow> i < n \<Longrightarrow> P i"
  by (simp add: list_all_iff)

text \<open>
  Claim C3, as amended. Let the trimmed input contain a path segment of the form
  \<open>/<slug>-<32 hex>\<close> (\<open>pathSegment\<close>), and let \<open>A\<close> be the identifier of the leftmost such
  segment. Then \<open>extractNotionId\<close> returns the hyphenated lower-case form of \<open>A\<close>, whatever
  query parameters the input carries; the result is not the form of any 32-digit identifier
  \<open>B\<close> that differs from \<open>A\<close> by more than letter case. Such an input is never a canonical
  or compact identifier, because it contains a slash. When the trimmed input contains no such
  path segment, the identifier of the leftmost query parameter \<open>p\<close>, \<open>page_id\<close> or
  \<open>database_id\<close> with a value of 32 hexadecimal digits is returned, before any other run
  of 32 hexadecimal digits is looked for.
\<close>

theorem extractNotionId_path_over_query:
  "(trim x = pre @ s \<and> pathSegment s A \<and>
      (\<forall>i<length pre. \<forall>A'. \<not> pathSegment (drop i (trim x)) A')
    \<longrightarrow> extractNotionId x = Some (formatUuid A) \<and>
        (\<forall>B. length B = 32 \<and> list_all isHexDigit B \<and> toLowerCase B \<noteq> toLowerCase A
           \<longrightarrow> extractNotionId x \<noteq> Some (formatUuid B)))
   \<and>
   ((\<forall>i A'. \<not> pathSegment (drop i (trim x)) A') \<and> trim x = pre @ q \<and> querySegment q B \<and>
      (\<forall>i<length pre. \<forall>B'. \<not> querySegment (drop i (trim x)) B')
    \<longrightarrow> extractNotionId x = Some (formatUuid B))"
proof (intro conjI impI allI)
  assume h: "trim x = pre @ s \<and> pathSegment s A \<and>
      (\<forall>i<length pre. \<forall>A'. \<not> pathSegment (drop i (trim x)) A')"
  then show r: "extractNotionId x = Some (formatUuid A)" using extract_path[of x pre s A] by blast
  fix B assume b: "length B = 32 \<and> list_all isHexDigit B \<and> toLowerCase B \<noteq> toLowerCase A"
  from h have "length A = 32" "list_all isHexDigit A" by (auto simp: pathSegment_def)
  with b formatUuid_inj[of A B] show "extractNotionId x \<noteq> Some (formatUuid B)"
    using r by auto
next
  assume "(\<forall>i A'. \<not> pathSegment (drop i (trim x)) A') \<and> trim x = pre @ q \<and> querySegment q B \<and>
      (\<forall>i<length pre. \<forall>B'. \<not> querySegment (drop i (trim x)) B')"
  then show "extractNotionId x = Some (formatUuid B)" using extract_query[of x pre q B] by blast
qed

theorem extractNotionId_path_over_query_witness:
  "extractNotionId ''https://notion.so/workspace/DB-abc123def456789012345678901234ab?v=viewid123&p=0123456789ABCDEF0123456789abcdef''
     = Some ''abc123de-f456-7890-1234-5678901234ab'' \<and>
   extractNotionId ''https://notion.so/workspace/DB-abc123def456789012345678901234ab?v=viewid123&p=0123456789ABCDEF0123456789abcdef''
     \<noteq> Some (formatUuid ''0123456789ABCDEF0123456789abcdef'') \<and>
   extractNotionId ''https://notion.so/Page?v=ffffffffffffffffffffffffffffffff&Page_ID=0123456789ABCDEF0123456789abcdef00''
     = Some ''01234567-89ab-cdef-0123-456789abcdef''"
proof -
  let ?x = "''https://notion.so/workspace/DB-abc123def456789012345678901234ab?v=viewid123&p=0123456789ABCDEF0123456789abcdef''"
  let ?pre = "''https://notion.so/workspace''"
  let ?s = "''/DB-abc123def456789012345678901234ab?v=viewid123&p=0123456789ABCDEF0123456789abcdef''"
  let ?A = "''abc123def456789012345678901234ab''"
  let ?B = "''0123456789ABCDEF0123456789abcdef''"
  have t: "trim ?x = ?pre @ ?s" by code_simp
  have hexA: "list_all isHexDigit ?A" by code_simp
  have hexB: "list_all isHexDigit ?B" by code_simp
  have seg: "pathSegment ?s ?A"
    unfolding pathSegment_def
    by (rule exI[of _ "''DB''"], rule exI[of _ "''?v=viewid123&p=0123456789ABCDEF0123456789abcdef''"],
        code_simp)
  have "list_all (\<lambda>i. pathAt (drop i (?pre @ ?s)) = None) [0..<length ?pre]" by code_simp
  then have first: "\<forall>i<length ?pre. \<forall>A'. \<not> pathSegment (drop i (trim ?x)) A'"
    unfolding t using all_below_upt no_pathSegment by blast
  have ne: "toLowerCase ?B \<noteq> toLowerCase ?A" by code_simp
  have fa: "formatUuid ?A = ''abc123de-f456-7890-1234-5678901234ab''" by code_simp
  let ?y = "''https://notion.so/Page?v=ffffffffffffffffffffffffffffffff&Page_ID=0123456789ABCDEF0123456789abcdef00''"
  let ?pre2 = "''https://notion.so/Page?v=ffffffffffffffffffffffffffffffff''"
  let ?q = "''&Page_ID=0123456789ABCDEF0123456789abcdef00''"
  have t2: "trim ?y = ?pre2 @ ?q" by code_simp
  have qseg: "querySegment ?q ?B"
    unfolding querySegment_def
    by (rule exI[of _ "CHR ''&''"], rule exI[of _ "''Page_ID''"], rule exI[of _ "''00''"], code_simp)
  have "list_all (\<lambda>i. pathAt (drop i (?pre2 @ ?q)) = None) [0..<Suc (length (?pre2 @ ?q))]" by code_simp
  then have nopath: "\<forall>i A'. \<not> pathSegment (drop i (trim ?y)) A'"
  proof (intro allI)
    fix i A'
    assume a: "list_all (\<lambda>i. pathAt (drop i (?pre2 @ ?q)) = None) [0..<Suc (length (?pre2 @ ?q))]"
    show "\<not> pathSegment (drop i (trim ?y)) A'"
    proof (cases "i < Suc (length (?pre2 @ ?q))")
      case True
      from all_below_upt[OF a True] show ?thesis unfolding t2 by (rule no_pathSegment)
    next
      case False
      then have "drop i (trim ?y) = []" unfolding t2 by simp
      then show ?thesis by (simp add: pathSegment_def)
    qed
  qed
  have "list_all (\<lambda>i. queryAt (drop i (?pre2 @ ?q)) = None) [0..<length ?pre2]" by code_simp
  then have qfirst: "\<forall>i<length ?pre2. \<forall>B'. \<not> querySegment (drop i (trim ?y)) B'"
    unfolding t2 using all_below_upt no_querySegment by blast
  have fb: "formatUuid ?B = ''01234567-89ab-cdef-0123-456789abcdef''" by code_simp
  note thm1 = extractNotionId_path_over_query[of ?x ?pre ?s ?A, THEN conjunct1, rule_format]
  note thm2 = extractNotionId_path_over_query[of ?y ?pre2 _ _ ?q ?B, THEN conjunct2, rule_format]
  have r1: "extractNotionId ?x = Some (formatUuid ?A)"
    using thm1[OF conjI[OF t conjI[OF seg first]]] by blast
  have lenB: "length ?B = 32" by simp
  have r2: "extractNotionId ?x \<noteq> Some (formatUuid ?B)"
    using thm1[OF conjI[OF t conjI[OF seg first]], THEN conjunct2, rule_format, of ?B] lenB hexB ne
    by blast
  have r3: "extractNotionId ?y = Some (formatUuid ?B)"
    using thm2[OF conjI[OF nopath conjI[OF t2 conjI[OF qseg qfirst]]]] .
  show ?thesis using r1 r2 r3 unfolding fa fb by blast
qed

text \<open>
  The claim as stated fails when the input has two path segments of that form: with
  \<open>A\<close> the identifier of the second one, the result is the form of the first.
\<close>

theorem extractNotionId_second_segment_counterexample:
  "pathSegment ''/b-22222222222222222222222222222222?p=33333333333333333333333333333333''
     ''22222222222222222222222222222222'' \<and>
   querySegment ''?p=33333333333333333333333333333333'' ''33333333333333333333333333333333'' \<and>
   extractNotionId ''https://notion.so/a-11111111111111111111111111111111/b-22222222222222222222222222222222?p=33333333333333333333333333333333''
     = Some ''11111111-1111-1111-1111-111111111111'' \<and>
   formatUuid ''22222222222222222222222222222222'' = ''22222222-2222-2222-2222-222222222222''"
proof -
  have hex: "list_all isHexDigit ''22222222222222222222222222222222''"
    "list_all isHexDigit ''33333333333333333333333333333333''" by code_simp+
  have 1: "pathSegment ''/b-22222222222222222222222222222222?p=33333333333333333333333333333333''
     ''22222222222222222222222222222222''"
    unfolding pathSegment_def
    by (rule exI[of _ "''b''"], rule exI[of _ "''?p=33333333333333333333333333333333''"], code_simp)
  have 2: "querySegment ''?p=33333333333333333333333333333333'' ''33333333333333333333333333333333''"
    unfolding querySegment_def
    by (rule exI[of _ "CHR ''?''"], rule exI[of _ "''p''"], rule exI[of _ "[]"], code_simp)
  have 3: "extractNotionId ''https://notion.so/a-11111111111111111111111111111111/b-22222222222222222222222222222222?p=33333333333333333333333333333333''
     = Some ''11111111-1111-1111-1111-111111111111''" by code_simp
  have 4: "formatUuid ''22222222222222222222222222222222'' = ''22222222-2222-2222-2222-222222222222''"
    by code_simp
  from 1 2 3 4 show ?thesis by blast
qed

section \<open>Pagination\<close>

lemma next_call_ok:
  "listFn (firstPageArgs\<lparr>start_cursor := c\<rparr>) s = (Inr p, s') \<Longrightarrow>
   generator_next listFn firstPageArgs (AtCall c) s
     = generator_next listFn firstPageArgs (Yielding (results p) (next_cursor p)) s'"
  by (subst generator_next.simps) simp

lemma next_call_error:
  "listFn (firstPageArgs\<lparr>start_cursor := c\<rparr>) s = (Inl e, s') \<Longrightarrow>
   generator_next listFn firstPageArgs (AtCall c) s = Some (Throw e, Completed, s')"
  by (subst generator_next.simps) simp

lemma next_yield:
  "generator_next listFn firstPageArgs (Yielding (x # xs) nc) s = Some (Yield x, Yielding xs nc, s)"
  by (subst generator_next.simps) simp

lemma next_more:
  "truthy nc \<Longrightarrow>
   generator_next listFn firstPageArgs (Yielding [] nc) s
     = generator_next listFn firstPageArgs (AtCall nc) s"
  by (subst generator_next.simps) simp

lemma next_end:
  "\<not> truthy nc \<Longrightarrow>
   generator_next listFn firstPageArgs (Yielding [] nc) s = Some (Return, Completed, s)"
  by (subst generator_next.simps) simp

lemma next_completed:
  "generator_next listFn firstPageArgs Completed s = Some (Return, Completed, s)"
  by (subst generator_next.simps) simp

lemma collect_cong:
  assumes "generator_next listFn firstPageArgs g s = generator_next listFn firstPageArgs g' s'"
  shows "collect_loop listFn firstPageArgs g s acc = collect_loop listFn firstPageArgs g' s' acc"
proof -
  have "collect_loop listFn firstPageArgs g s acc =
     (case generator_next listFn firstPageArgs g s of
        None \<Rightarrow> None
      | Some (Yield item, g', s') \<Rightarrow> collect_loop listFn firstPageArgs g' s' (acc @ [item])
      | Some (Return, g', s') \<Rightarrow> Some (Inr acc, s')
      | Some (Throw e, g', s') \<Rightarrow> Some (Inl e, s'))"
    by (rule collect_loop.simps)
  also have "\<dots> = collect_loop listFn firstPageArgs g' s' acc"
    unfolding assms by (rule collect_loop.simps[symmetric])
  finally show ?thesis .
qed

lemma collect_items:
  "collect_loop listFn firstPageArgs (Yielding xs nc) s acc
     = collect_loop listFn firstPageArgs (Yielding [] nc) s (acc @ xs)"
proof (induction xs arbitrary: acc)
  case Nil then show ?case by simp
next
  case (Cons x xs)
  have "collect_loop listFn firstPageArgs (Yielding (x # xs) nc) s acc
        = collect_loop listFn firstPageArgs (Yielding xs nc) s (acc @ [x])"
    by (subst collect_loop.simps) (simp add: next_yield)
  then show ?case using Cons.IH[of "acc @ [x]"] by simp
qed

lemma collect_end:
  "\<not> truthy nc \<Longrightarrow>
   collect_loop listFn firstPageArgs (Yielding [] nc) s acc = Some (Inr acc, s)"
  by (subst collect_loop.simps) (simp add: next_end)

lemma collect_error:
  "listFn (firstPageArgs\<lparr>start_cursor := c\<rparr>) s = (Inl e, s') \<Longrightarrow>
   collect_loop listFn firstPageArgs (AtCall c) s acc = Some (Inl e, s')"
  by (subst collect_loop.simps) (simp add: next_call_error)

lemma collect_page:
  assumes "listFn (firstPageArgs\<lparr>start_cursor := c\<rparr>) s = (Inr p, s')"
  shows "collect_loop listFn firstPageArgs (AtCall c) s acc
     = collect_loop listFn firstPageArgs (Yielding [] (next_cursor p)) s' (acc @ results p)"
  using collect_cong[OF next_call_ok[where listFn=listFn and firstPageArgs=firstPageArgs and c=c and s=s, OF assms], of acc]
    collect_items[where listFn=listFn and firstPageArgs=firstPageArgs and xs="results p" and nc="next_cursor p" and s=s' and acc=acc]
  by simp

lemma collect_chain:
  assumes "pages \<noteq> []"
    and "\<forall>k<length pages. script (length calls + k) = Inr (pages ! k)"
    and "\<forall>p\<in>set (butlast pages). truthy (next_cursor p)"
    and "\<not> truthy (next_cursor (last pages))"
  shows "collect_loop (scripted script) firstPageArgs (AtCall c) calls acc
     = Some (Inr (acc @ concat (map results pages)),
             calls @ map (\<lambda>c. firstPageArgs\<lparr>start_cursor := c\<rparr>) (c # map next_cursor (butlast pages)))"
  using assms
proof (induction pages arbitrary: calls c acc)
  case Nil then show ?case by simp
next
  case (Cons p pages)
  let ?calls' = "calls @ [firstPageArgs\<lparr>start_cursor := c\<rparr>]"
  have call: "scripted script (firstPageArgs\<lparr>start_cursor := c\<rparr>) calls = (Inr p, ?calls')"
    using Cons.prems(2)[rule_format, of 0] by (simp add: scripted_def)
  note step = collect_page[where listFn="scripted script" and firstPageArgs=firstPageArgs and c=c
      and s=calls and acc=acc, OF call]
  show ?case
  proof (cases "pages = []")
    case True
    with Cons.prems(4) have "\<not> truthy (next_cursor p)" by simp
    then show ?thesis using step True by (simp add: collect_end)
  next
    case False
    then have t: "truthy (next_cursor p)" using Cons.prems(3) by simp
    have scr: "\<forall>k<length pages. script (length ?calls' + k) = Inr (pages ! k)"
      using Cons.prems(2)[rule_format, of "Suc k" for k] by simp
    have "collect_loop (scripted script) firstPageArgs (Yielding [] (next_cursor p)) ?calls' (acc @ results p)
        = collect_loop (scripted script) firstPageArgs (AtCall (next_cursor p)) ?calls' (acc @ results p)"
      by (rule collect_cong) (rule next_more[OF t])
    also have "\<dots> = Some (Inr ((acc @ results p) @ concat (map results pages)),
             ?calls' @ map (\<lambda>c. firstPageArgs\<lparr>start_cursor := c\<rparr>) (next_cursor p # map next_cursor (butlast pages)))"
      using False scr Cons.prems(3,4) by (intro Cons.IH) simp_all
    finally show ?thesis using step False by simp
  qed
qed

text \<open>
  Claim C1. Let the answers of a scripted \<open>listFn\<close> be the pages \<open>pages\<close> (at least one),
  every page but the last with a truthy \<open>next_cursor\<close> and the last with a falsy one (\<open>null\<close>,
  \<open>undefined\<close> or the empty string). Then \<open>collectPaginatedAPI\<close> resolves with the
  concatenation, in order, of the \<open>results\<close> of these pages, and \<open>listFn\<close> has been invoked
  exactly once per page: at least once, whatever \<open>firstPageArgs.start_cursor\<close> is and
  whether or not a page is empty, and not again after the page with the falsy cursor. The
  flag \<open>has_more\<close> is not constrained, and what the script would answer next is not either.
\<close>

theorem collectPaginatedAPI_chain:
  assumes "pages \<noteq> []"
    and "\<forall>k<length pages. script k = Inr (pages ! k)"
    and "\<forall>p\<in>set (butlast pages). truthy (next_cursor p)"
    and "\<not> truthy (next_cursor (last pages))"
  shows "\<exists>calls. collectPaginatedAPI (scripted script) firstPageArgs []
           = Some (Inr (concat (map results pages)), calls) \<and> length calls = length pages"
  using collect_chain[of pages script "[]" firstPageArgs "start_cursor firstPageArgs" "[]"] assms
  by (simp add: collectPaginatedAPI_def iteratePaginatedAPI_def)

theorem collectPaginatedAPI_chain_witness:
  "\<exists>calls.
     collectPaginatedAPI
       (scripted (\<lambda>k. if k = 0
          then Inr \<lparr>results = [1::nat, 2], next_cursor = Cursor ''c1'', has_more = True\<rparr>
          else (Inr \<lparr>results = [3], next_cursor = Null, has_more = True\<rparr> :: string + nat PaginatedList)))
       \<lparr>start_cursor = Undefined\<rparr> []
     = Some (Inr [1, 2, 3], calls) \<and> length calls = 2"
proof -
  let ?p1 = "\<lparr>results = [1::nat, 2], next_cursor = Cursor ''c1'', has_more = True\<rparr>"
  let ?p2 = "\<lparr>results = [3::nat], next_cursor = Null, has_more = True\<rparr>"
  let ?script = "\<lambda>k::nat. if k = 0 then Inr ?p1 else (Inr ?p2 :: string + nat PaginatedList)"
  have h1: "[?p1, ?p2] \<noteq> []" by simp
  have h2: "\<forall>k<length [?p1, ?p2]. ?script k = Inr ([?p1, ?p2] ! k)" by (simp add: less_Suc_eq)
  have h3: "\<forall>p\<in>set (butlast [?p1, ?p2]). truthy (next_cursor p)" by simp
  have h4: "\<not> truthy (next_cursor (last [?p1, ?p2]))" by simp
  from collectPaginatedAPI_chain[OF h1 h2 h3 h4, of "\<lparr>start_cursor = Undefined\<rparr>"]
  obtain calls where
    c: "collectPaginatedAPI (scripted ?script) \<lparr>start_cursor = Undefined\<rparr> []
          = Some (Inr (concat (map results [?p1, ?p2])), calls)" "length calls = length [?p1, ?p2]"
    by blast
  have "concat (map results [?p1, ?p2]) = [1, 2, 3]" "length [?p1, ?p2] = 2" by simp_all
  with c show ?thesis by (intro exI[of _ calls]) (simp only: simp_thms)
qed

lemma consume_cong:
  assumes "generator_next listFn firstPageArgs g s = generator_next listFn firstPageArgs g' s'"
  shows "consume (Suc n) listFn firstPageArgs g s = consume (Suc n) listFn firstPageArgs g' s'"
  using assms by simp

lemma consume_items:
  "consume (length xs + n) listFn firstPageArgs (Yielding xs nc) s
     = (case consume n listFn firstPageArgs (Yielding [] nc) s of
          None \<Rightarrow> None
        | Some (outs, g, s') \<Rightarrow> Some (map Yield xs @ outs, g, s'))"
proof (induction xs)
  case Nil then show ?case by (simp split: option.splits)
next
  case (Cons x xs)
  then show ?case by (simp add: next_yield split: option.splits)
qed

lemma consume_chain_error:
  assumes "\<forall>k<length pages. script (length calls + k) = Inr (pages ! k)"
    and "\<forall>p\<in>set pages. truthy (next_cursor p)"
    and "script (length calls + length pages) = Inl e"
  shows "consume (Suc (length (concat (map results pages)))) (scripted script) firstPageArgs (AtCall c) calls
     = Some (map Yield (concat (map results pages)) @ [Throw e], Completed,
             calls @ map (\<lambda>c. firstPageArgs\<lparr>start_cursor := c\<rparr>) (c # map next_cursor pages))"
  using assms
proof (induction pages arbitrary: calls c)
  case Nil
  have "scripted script (firstPageArgs\<lparr>start_cursor := c\<rparr>) calls
          = (Inl e, calls @ [firstPageArgs\<lparr>start_cursor := c\<rparr>])"
    using Nil.prems(3) by (simp add: scripted_def)
  from next_call_error[where listFn="scripted script", OF this] show ?case by simp
next
  case (Cons p pages)
  let ?calls' = "calls @ [firstPageArgs\<lparr>start_cursor := c\<rparr>]"
  let ?m = "length (concat (map results pages))"
  have call: "scripted script (firstPageArgs\<lparr>start_cursor := c\<rparr>) calls = (Inr p, ?calls')"
    using Cons.prems(1)[rule_format, of 0] by (simp add: scripted_def)
  have t: "truthy (next_cursor p)" using Cons.prems(2) by simp
  have scr: "\<forall>k<length pages. script (length ?calls' + k) = Inr (pages ! k)"
    using Cons.prems(1)[rule_format, of "Suc k" for k] by simp
  have err: "script (length ?calls' + length pages) = Inl e" using Cons.prems(3) by simp
  have IH: "consume (Suc ?m) (scripted script) firstPageArgs (AtCall (next_cursor p)) ?calls'
     = Some (map Yield (concat (map results pages)) @ [Throw e], Completed,
             ?calls' @ map (\<lambda>c. firstPageArgs\<lparr>start_cursor := c\<rparr>) (next_cursor p # map next_cursor pages))"
    using scr err Cons.prems(2) by (intro Cons.IH) simp_all
  have "consume (Suc (length (concat (map results (p # pages))))) (scripted script) firstPageArgs (AtCall c) calls
      = consume (Suc (length (results p) + ?m)) (scripted script) firstPageArgs
          (Yielding (results p) (next_cursor p)) ?calls'"
    using consume_cong[OF next_call_ok[where listFn="scripted script", OF call]] by simp
  also have "\<dots> = consume (length (results p) + Suc ?m) (scripted script) firstPageArgs
          (Yielding (results p) (next_cursor p)) ?calls'" by simp
  also have "\<dots> = (case consume (Suc ?m) (scripted script) firstPageArgs (Yielding [] (next_cursor p)) ?calls' of
          None \<Rightarrow> None
        | Some (outs, g, s') \<Rightarrow> Some (map Yield (results p) @ outs, g, s'))"
    by (rule consume_items)
  also have "consume (Suc ?m) (scripted script) firstPageArgs (Yielding [] (next_cursor p)) ?calls'
      = consume (Suc ?m) (scripted script) firstPageArgs (AtCall (next_cursor p)) ?calls'"
    by (rule consume_cong) (rule next_more[OF t])
  finally show ?case unfolding IH by simp
qed

lemma collect_chain_error:
  assumes "\<forall>k<length pages. script (length calls + k) = Inr (pages ! k)"
    and "\<forall>p\<in>set pages. truthy (next_cursor p)"
    and "script (length calls + length pages) = Inl e"
  shows "collect_loop (scripted script) firstPageArgs (AtCall c) calls acc
     = Some (Inl e, calls @ map (\<lambda>c. firstPageArgs\<lparr>start_cursor := c\<rparr>) (c # map next_cursor pages))"
  using assms
proof (induction pages arbitrary: calls c acc)
  case Nil
  have "scripted script (firstPageArgs\<lparr>start_cursor := c\<rparr>) calls
          = (Inl e, calls @ [firstPageArgs\<lparr>start_cursor := c\<rparr>])"
    using Nil.prems(3) by (simp add: scripted_def)
  from collect_error[where listFn="scripted script", OF this] show ?case by simp
next
  case (Cons p pages)
  let ?calls' = "calls @ [firstPageArgs\<lparr>start_cursor := c\<rparr>]"
  have call: "scripted script (firstPageArgs\<lparr>start_cursor := c\<rparr>) calls = (Inr p, ?calls')"
    using Cons.prems(1)[rule_format, of 0] by (simp add: scripted_def)
  have t: "truthy (next_cursor p)" using Cons.prems(2) by simp
  have scr: "\<forall>k<length pages. script (length ?calls' + k) = Inr (pages ! k)"
    using Cons.prems(1)[rule_format, of "Suc k" for k] by simp
  have err: "script (length ?calls' + length pages) = Inl e" using Cons.prems(3) by simp
  have "collect_loop (scripted script) firstPageArgs (AtCall c) calls acc
      = collect_loop (scripted script) firstPageArgs (Yielding [] (next_cursor p)) ?calls' (acc @ results p)"
    by (rule collect_page[where listFn="scripted script", OF call])
  also have "\<dots> = collect_loop (scripted script) firstPageArgs (AtCall (next_cursor p)) ?calls' (acc @ results p)"
    by (rule collect_cong) (rule next_more[OF t])
  also have "\<dots> = Some (Inl e, ?calls' @ map (\<lambda>c. firstPageArgs\<lparr>start_cursor := c\<rparr>) (next_cursor p # map next_cursor pages))"
    using scr err Cons.prems(2) by (intro Cons.IH) simp_all
  finally show ?case by simp
qed

text \<open>
  Claim C2. Let a scripted \<open>listFn\<close> resolve on its first \<open>k\<close> invocations with the pages
  \<open>pages\<close>, each with a truthy \<open>next_cursor\<close> (so that invocation \<open>k + 1\<close> takes place), and
  reject on invocation \<open>k + 1\<close> with the error \<open>e\<close>. A consumer of the lazy iterator gets
  every item of the \<open>k\<close> pages, in order, and on its next \<open>next()\<close> the rejection with \<open>e\<close>
  itself; the items it got stay. \<open>collectPaginatedAPI\<close> rejects with the same \<open>e\<close> and
  returns no array.
\<close>

theorem listFn_error_propagates:
  assumes "\<forall>k<length pages. script k = Inr (pages ! k)"
    and "\<forall>p\<in>set pages. truthy (next_cursor p)"
    and "script (length pages) = Inl e"
  shows "\<exists>calls.
     consume (Suc (length (concat (map results pages)))) (scripted script) firstPageArgs
         (iteratePaginatedAPI firstPageArgs) []
       = Some (map Yield (concat (map results pages)) @ [Throw e], Completed, calls) \<and>
     collectPaginatedAPI (scripted script) firstPageArgs [] = Some (Inl e, calls) \<and>
     length calls = Suc (length pages)"
  using consume_chain_error[of pages script "[]" e firstPageArgs "start_cursor firstPageArgs"]
    collect_chain_error[of pages script "[]" e firstPageArgs "start_cursor firstPageArgs" "[]"] assms
  by (simp add: collectPaginatedAPI_def iteratePaginatedAPI_def)

theorem listFn_error_propagates_witness:
  "\<exists>calls.
     consume 3
       (scripted (\<lambda>k. if k = 0
          then Inr \<lparr>results = [1::nat, 2], next_cursor = Cursor ''c1'', has_more = True\<rparr>
          else Inl ''rate_limited''))
       \<lparr>start_cursor = Undefined\<rparr> (iteratePaginatedAPI \<lparr>start_cursor = Undefined\<rparr>) []
       = Some ([Yield 1, Yield 2, Throw ''rate_limited''], Completed, calls) \<and>
     collectPaginatedAPI
       (scripted (\<lambda>k. if k = 0
          then Inr \<lparr>results = [1::nat, 2], next_cursor = Cursor ''c1'', has_more = True\<rparr>
          else Inl ''rate_limited''))
       \<lparr>start_cursor = Undefined\<rparr> []
       = Some (Inl ''rate_limited'', calls) \<and>
     length calls = 2"
proof -
  let ?p1 = "\<lparr>results = [1::nat, 2], next_cursor = Cursor ''c1'', has_more = True\<rparr>"
  let ?script = "\<lambda>k::nat. if k = 0 then Inr ?p1 else Inl ''rate_limited''"
  have h1: "\<forall>k<length [?p1]. ?script k = Inr ([?p1] ! k)" by simp
  have h2: "\<forall>p\<in>set [?p1]. truthy (next_cursor p)" by simp
  have h3: "?script (length [?p1]) = Inl ''rate_limited''" by simp
  from listFn_error_propagates[OF h1 h2 h3, of "\<lparr>start_cursor = Undefined\<rparr>"]
  obtain calls where
    c: "consume (Suc (length (concat (map results [?p1])))) (scripted ?script) \<lparr>start_cursor = Undefined\<rparr>
          (iteratePaginatedAPI \<lparr>start_cursor = Undefined\<rparr>) []
        = Some (map Yield (concat (map results [?p1])) @ [Throw ''rate_limited''], Completed, calls)"
       "collectPaginatedAPI (scripted ?script) \<lparr>start_cursor = Undefined\<rparr> [] = Some (Inl ''rate_limited'', calls)"
       "length calls = Suc (length [?p1])"
    by blast
  have "Suc (length (concat (map results [?p1]))) = 3"
    "map Yield (concat (map results [?p1])) @ [Throw ''rate_limited''] = [Yield 1, Yield 2, Throw ''rate_limited'']"
    "Suc (length [?p1]) = 2" by simp_all
  with c show ?thesis by (intro exI[of _ calls]) (simp only: simp_thms)
qed

subsection \<open>The arguments of every invocation\<close>

lemma chainFrom_snoc:
  "chainFrom A c calls c' \<Longrightarrow>
   chainFrom A c (calls @ [(A\<lparr>start_cursor := c'\<rparr>, Inr p)]) (next_cursor p)"
  by (induction A c calls c' rule: chainFrom.induct) (auto split: sum.splits)

lemma chainFrom_snoc_expected:
  "chainFrom A c calls c' \<Longrightarrow> expectedCalls A c (calls @ [(A\<lparr>start_cursor := c'\<rparr>, answer)])"
  by (induction A c calls c' rule: chainFrom.induct) (auto split: sum.splits)

lemma chainFrom_expected: "chainFrom A c calls c' \<Longrightarrow> expectedCalls A c calls"
  by (induction A c calls c' rule: chainFrom.induct) (auto split: sum.splits)

lemma expectedCalls_more:
  "expectedCalls A c calls \<Longrightarrow>
   list_all (\<lambda>(args, answer). PaginatedArgs.more args = PaginatedArgs.more A) calls"
  by (induction A c calls rule: expectedCalls.induct) (auto split: sum.splits)

lemma consistent_expected:
  "consistent A g calls \<Longrightarrow> expectedCalls A (start_cursor A) calls"
  by (cases g) (auto simp: consistent_def chainFrom_expected)

lemma next_consistent:
  fixes f :: "('z, 's, 'e, 'item) listFn"
  assumes "generator_next lf0 A0 g0 st0 = Some y0"
  shows "lf0 = recording f \<longrightarrow> consistent A0 g0 (fst st0)
           \<longrightarrow> consistent A0 (fst (snd y0)) (fst (snd (snd y0)))"
proof (rule generator_next.raw_induct[where P = "\<lambda>lf A g st y. lf = recording f \<longrightarrow>
          consistent A g (fst st) \<longrightarrow> consistent A (fst (snd y)) (fst (snd (snd y)))", OF _ assms],
       intro impI)
  fix gn :: "('z, ('z PaginatedArgs_scheme \<times> ('e + 'item PaginatedList)) list \<times> 's, 'e, 'item) listFn
               \<Rightarrow> 'z PaginatedArgs_scheme \<Rightarrow> 'item generator
               \<Rightarrow> ('z PaginatedArgs_scheme \<times> ('e + 'item PaginatedList)) list \<times> 's
               \<Rightarrow> (('e, 'item) outcome \<times> 'item generator
                    \<times> ('z PaginatedArgs_scheme \<times> ('e + 'item PaginatedList)) list \<times> 's) option"
  fix lf A g st y
  assume IH: "\<And>lf A g st y. gn lf A g st = Some y \<Longrightarrow> lf = recording f \<longrightarrow>
          consistent A g (fst st) \<longrightarrow> consistent A (fst (snd y)) (fst (snd (snd y)))"
    and body: "(case g of
        AtCall nextCursor \<Rightarrow>
          (case lf (A\<lparr>start_cursor := nextCursor\<rparr>) st of
             (Inl e, s') \<Rightarrow> Some (Throw e, Completed, s')
           | (Inr response, s') \<Rightarrow>
               gn lf A (Yielding (results response) (next_cursor response)) s')
      | Yielding items nextCursor \<Rightarrow>
          (case items of
             item # rest \<Rightarrow> Some (Yield item, Yielding rest nextCursor, st)
           | [] \<Rightarrow>
               if truthy nextCursor then gn lf A (AtCall nextCursor) st
               else Some (Return, Completed, st))
      | Completed \<Rightarrow> Some (Return, Completed, st)) = Some y"
    and lf: "lf = recording f" and inv: "consistent A g (fst st)"
  obtain calls s where st: "st = (calls, s)" by (cases st)
  show "consistent A (fst (snd y)) (fst (snd (snd y)))"
  proof (cases g)
    case (AtCall c)
    obtain answer s1 where f: "f (A\<lparr>start_cursor := c\<rparr>) s = (answer, s1)" by fastforce
    let ?calls' = "calls @ [(A\<lparr>start_cursor := c\<rparr>, answer)]"
    have r: "lf (A\<lparr>start_cursor := c\<rparr>) st = (answer, (?calls', s1))"
      using lf f st by (simp add: recording_def)
    have ch: "chainFrom A (start_cursor A) calls c"
      using inv AtCall st by (simp add: consistent_def)
    show ?thesis
    proof (cases answer)
      case (Inl e)
      then have "y = (Throw e, Completed, (?calls', s1))" using body AtCall r by simp
      then show ?thesis using chainFrom_snoc_expected[OF ch] by (simp add: consistent_def)
    next
      case (Inr p)
      then have "gn lf A (Yielding (results p) (next_cursor p)) (?calls', s1) = Some y"
        using body AtCall r by simp
      moreover have "consistent A (Yielding (results p) (next_cursor p)) (fst (?calls', s1))"
        using chainFrom_snoc[OF ch, of p] Inr by (simp add: consistent_def)
      ultimately show ?thesis using IH lf by blast
    qed
  next
    case (Yielding items nc)
    show ?thesis
    proof (cases items)
      case Nil
      show ?thesis
      proof (cases "truthy nc")
        case True
        then have "gn lf A (AtCall nc) st = Some y" using body Yielding Nil by simp
        moreover have "consistent A (AtCall nc) (fst st)"
          using inv Yielding by (simp add: consistent_def)
        ultimately show ?thesis using IH lf by blast
      next
        case False
        then have "y = (Return, Completed, st)" using body Yielding Nil by simp
        then show ?thesis using inv Yielding by (simp add: consistent_def chainFrom_expected)
      qed
    next
      case (Cons x xs)
      then have "y = (Yield x, Yielding xs nc, st)" using body Yielding by simp
      then show ?thesis using inv Yielding by (simp add: consistent_def)
    qed
  next
    case Completed
    then have "y = (Return, Completed, st)" using body by simp
    then show ?thesis using inv Completed by simp
  qed
qed

lemma consume_consistent:
  "consume n (recording f) A g (calls, s) = Some (outs, g', (calls', s')) \<Longrightarrow>
   consistent A g calls \<Longrightarrow> consistent A g' calls'"
proof (induction n arbitrary: g calls s outs)
  case 0 then show ?case by simp
next
  case (Suc n)
  from Suc.prems(1) obtain out g1 calls1 s1 outs1 where
    n: "generator_next (recording f) A g (calls, s) = Some (out, g1, (calls1, s1))" and
    c: "consume n (recording f) A g1 (calls1, s1) = Some (outs1, g', (calls', s'))"
    by (auto split: option.splits)
  from next_consistent[OF n, of f] Suc.prems(2) have "consistent A g1 calls1" by simp
  with Suc.IH[OF c] show ?case .
qed

text \<open>
  Claim C7. Whatever \<open>listFn\<close> is, and however many times \<open>next()\<close> has been called on the
  iterator, the invocations of \<open>listFn\<close> made so far have these arguments: the first has
  \<open>firstPageArgs\<close> with \<open>start_cursor\<close> set to \<open>firstPageArgs.start_cursor\<close>, every later one
  has \<open>firstPageArgs\<close> with \<open>start_cursor\<close> set to the \<open>next_cursor\<close> of the answer just
  before it, and so all other fields are those of \<open>firstPageArgs\<close> in every invocation.
  \<open>firstPageArgs\<close> itself is only read: the generator passes a new object to \<open>listFn\<close>.
\<close>

theorem listFn_arguments:
  assumes "consume n (recording listFn) firstPageArgs (iteratePaginatedAPI firstPageArgs) ([], s)
             = Some (outs, g, (calls, s'))"
  shows "expectedCalls firstPageArgs (start_cursor firstPageArgs) calls \<and>
         list_all (\<lambda>(args, answer). PaginatedArgs.more args = PaginatedArgs.more firstPageArgs) calls"
proof -
  from consume_consistent[OF assms]
  have "consistent firstPageArgs g calls"
    by (simp add: consistent_def iteratePaginatedAPI_def)
  then have e: "expectedCalls firstPageArgs (start_cursor firstPageArgs) calls"
    by (rule consistent_expected)
  then show ?thesis using expectedCalls_more by blast
qed

theorem listFn_arguments_witness:
  "expectedCalls \<lparr>start_cursor = Undefined, block_id = ''b1''\<rparr> Undefined
     [(\<lparr>start_cursor = Undefined, block_id = ''b1''\<rparr>,
       Inr \<lparr>results = [1::nat, 2], next_cursor = Cursor ''c1'', has_more = True\<rparr>),
      (\<lparr>start_cursor = Cursor ''c1'', block_id = ''b1''\<rparr>,
       (Inr \<lparr>results = [3], next_cursor = Null, has_more = False\<rparr> :: string + nat PaginatedList))] \<and>
   list_all (\<lambda>(args, answer). PaginatedArgs.more args = PaginatedArgs.more \<lparr>start_cursor = Undefined, block_id = ''b1''\<rparr>)
     [(\<lparr>start_cursor = Undefined, block_id = ''b1''\<rparr>,
       Inr \<lparr>results = [1::nat, 2], next_cursor = Cursor ''c1'', has_more = True\<rparr>),
      (\<lparr>start_cursor = Cursor ''c1'', block_id = ''b1''\<rparr>,
       (Inr \<lparr>results = [3], next_cursor = Null, has_more = False\<rparr> :: string + nat PaginatedList))]"
proof -
  let ?A = "\<lparr>start_cursor = Undefined, block_id = ''b1''\<rparr>"
  let ?p1 = "\<lparr>results = [1::nat, 2], next_cursor = Cursor ''c1'', has_more = True\<rparr>"
  let ?p2 = "\<lparr>results = [3::nat], next_cursor = Null, has_more = False\<rparr>"
  let ?f = "\<lambda>(args :: ListBlockChildrenArgs) (s :: nat).
              (if start_cursor args = Cursor ''c1'' then (Inr ?p2 :: string + nat PaginatedList) else Inr ?p1, Suc s)"
  have "consume 4 (recording ?f) ?A (iteratePaginatedAPI ?A) ([], 0)
      = Some ([Yield 1, Yield 2, Yield 3, Return], Completed,
              ([(?A, Inr ?p1), (?A\<lparr>start_cursor := Cursor ''c1''\<rparr>, Inr ?p2)], 2))"
    by (simp add: eval_nat_numeral iteratePaginatedAPI_def recording_def
          next_call_ok[where p="?p1"] next_call_ok[where p="?p2"] next_yield next_more next_end)
  from listFn_arguments[OF this] show ?thesis by simp
qed

section \<open>Full and partial responses\<close>

lemma bindE_Inr [simp]: "bindE (Inr x) f = f x"
  by (simp add: bindE_def)

lemma bindE_Inl [simp]: "bindE (Inl e) f = Inl e"
  by (simp add: bindE_def)

lemma map_of_deleteField:
  "map_of (deleteField k fs) k' = (if k' = k then None else map_of fs k')"
  by (induction fs) (auto simp: deleteField_def)

lemma keys_deleteField: "fst ` set (deleteField k fs) = fst ` set fs - {k}"
  by (auto simp: deleteField_def rev_image_eqI)

lemma field_deleteField:
  "field (deleteField k fs) k' = (if k' = k then JUndefined else field fs k')"
  by (simp add: field_def map_of_deleteField)

lemma hasField_deleteField:
  "hasField (deleteField k fs) k' = (k' \<noteq> k \<and> hasField fs k')"
  by (auto simp: hasField_def keys_deleteField)

lemma member_plain:
  "key \<notin> set objectPrototypeNames \<Longrightarrow> js_member (JObj fs) key = Inr (field fs key)"
  by (simp add: field_def split: option.splits)

lemma in_plain:
  "key \<notin> set objectPrototypeNames \<Longrightarrow> js_in key (JObj fs) = Inr (hasField fs key)"
  by (simp add: hasField_def)

lemma plain_names:
  "''object'' \<notin> set objectPrototypeNames" "''type'' \<notin> set objectPrototypeNames"
  "''url'' \<notin> set objectPrototypeNames" "''created_by'' \<notin> set objectPrototypeNames"
  "''properties'' \<notin> set objectPrototypeNames" "''name'' \<notin> set objectPrototypeNames"
  "''plain_text'' \<notin> set objectPrototypeNames" "''annotations'' \<notin> set objectPrototypeNames"
  "''text'' \<notin> set objectPrototypeNames" "''link'' \<notin> set objectPrototypeNames"
  "''bold'' \<notin> set objectPrototypeNames" "''italic'' \<notin> set objectPrototypeNames"
  "''strikethrough'' \<notin> set objectPrototypeNames" "''underline'' \<notin> set objectPrototypeNames"
  "''code'' \<notin> set objectPrototypeNames"
  by (simp_all add: objectPrototypeNames_def)

lemma isFullBlock_obj:
  "isFullBlock (JObj r) = Inr (field r ''object'' = JStr ''block'' \<and> hasField r ''type'')"
  by (simp add: isFullBlock_def member_plain in_plain plain_names del: js_member.simps js_in.simps)

lemma isFullPage_obj:
  "isFullPage (JObj r) = Inr (field r ''object'' = JStr ''page'' \<and> hasField r ''url'')"
  by (simp add: isFullPage_def member_plain in_plain plain_names del: js_member.simps js_in.simps)

lemma isFullDataSource_obj:
  "isFullDataSource (JObj r) = Inr (field r ''object'' = JStr ''data_source'')"
  by (simp add: isFullDataSource_def member_plain plain_names del: js_member.simps js_in.simps)

lemma isFullDatabase_obj:
  "isFullDatabase (JObj r) = Inr (field r ''object'' = JStr ''database'')"
  by (simp add: isFullDatabase_def member_plain plain_names del: js_member.simps js_in.simps)

lemma isFullPageOrDataSource_obj:
  "isFullPageOrDataSource (JObj r) =
     (if field r ''object'' = JStr ''data_source'' then isFullDataSource (JObj r)
      else isFullPage (JObj r))"
  by (simp add: isFullPageOrDataSource_def member_plain plain_names del: js_member.simps js_in.simps)

lemma isFullUser_obj: "isFullUser (JObj r) = Inr (hasField r ''type'')"
  by (simp add: isFullUser_def in_plain plain_names del: js_member.simps js_in.simps)

lemma isFullComment_obj: "isFullComment (JObj r) = Inr (hasField r ''created_by'')"
  by (simp add: isFullComment_def in_plain plain_names del: js_member.simps js_in.simps)

text \<open>
  Claim C6. On every object, whatever its fields, no predicate throws, and each is \<open>true\<close>
  exactly under its one condition: \<open>isFullBlock\<close> iff \<open>object\<close> is \<open>"block"\<close> and a field
  \<open>type\<close> is present; \<open>isFullPage\<close> iff \<open>object\<close> is \<open>"page"\<close> and a field \<open>url\<close> is present;
  \<open>isFullDataSource\<close> iff \<open>object\<close> is \<open>"data_source"\<close>; \<open>isFullDatabase\<close> iff \<open>object\<close> is
  \<open>"database"\<close>; \<open>isFullPageOrDataSource\<close> is \<open>isFullDataSource\<close> when \<open>object\<close> is
  \<open>"data_source"\<close> and \<open>isFullPage\<close> otherwise; \<open>isFullUser\<close> iff a field \<open>type\<close> is present;
  \<open>isFullComment\<close> iff a field \<open>created_by\<close> is present. So a fixture on which a predicate
  is \<open>true\<close> makes it \<open>false\<close> once its distinguishing field is deleted (for a data source
  and a database that field is \<open>object\<close>).
\<close>

theorem fullness_predicates:
  "isFullBlock (JObj r) = Inr (field r ''object'' = JStr ''block'' \<and> hasField r ''type'') \<and>
   isFullPage (JObj r) = Inr (field r ''object'' = JStr ''page'' \<and> hasField r ''url'') \<and>
   isFullDataSource (JObj r) = Inr (field r ''object'' = JStr ''data_source'') \<and>
   isFullDatabase (JObj r) = Inr (field r ''object'' = JStr ''database'') \<and>
   isFullPageOrDataSource (JObj r) =
     (if field r ''object'' = JStr ''data_source'' then isFullDataSource (JObj r)
      else isFullPage (JObj r)) \<and>
   isFullUser (JObj r) = Inr (hasField r ''type'') \<and>
   isFullComment (JObj r) = Inr (hasField r ''created_by'') \<and>
   (isFullBlock (JObj r) = Inr True \<longrightarrow> isFullBlock (JObj (deleteField ''type'' r)) = Inr False) \<and>
   (isFullPage (JObj r) = Inr True \<longrightarrow> isFullPage (JObj (deleteField ''url'' r)) = Inr False) \<and>
   (isFullDataSource (JObj r) = Inr True \<longrightarrow>
      isFullDataSource (JObj (deleteField ''object'' r)) = Inr False) \<and>
   (isFullDatabase (JObj r) = Inr True \<longrightarrow>
      isFullDatabase (JObj (deleteField ''object'' r)) = Inr False) \<and>
   (isFullPageOrDataSource (JObj r) = Inr True \<longrightarrow>
      isFullPageOrDataSource
        (JObj (deleteField (if field r ''object'' = JStr ''data_source'' then ''object'' else ''url'') r))
        = Inr False) \<and>
   (isFullUser (JObj r) = Inr True \<longrightarrow> isFullUser (JObj (deleteField ''type'' r)) = Inr False) \<and>
   (isFullComment (JObj r) = Inr True \<longrightarrow>
      isFullComment (JObj (deleteField ''created_by'' r)) = Inr False)"
  by (simp add: isFullBlock_obj isFullPage_obj isFullDataSource_obj isFullDatabase_obj
        isFullPageOrDataSource_obj isFullUser_obj isFullComment_obj field_deleteField
        hasField_deleteField)

theorem fullness_predicates_witness:
  "isFullBlock (JObj [(''object'', JStr ''block''), (''id'', JStr ''b1''), (''type'', JStr ''paragraph'')]) = Inr True \<and>
   isFullBlock (JObj (deleteField ''type'' [(''object'', JStr ''block''), (''id'', JStr ''b1''), (''type'', JStr ''paragraph'')])) = Inr False \<and>
   isFullPage (JObj [(''object'', JStr ''page''), (''id'', JStr ''p1''), (''url'', JStr ''https://notion.so/p1'')]) = Inr True \<and>
   isFullPage (JObj (deleteField ''url'' [(''object'', JStr ''page''), (''id'', JStr ''p1''), (''url'', JStr ''https://notion.so/p1'')])) = Inr False \<and>
   isFullPageOrDataSource (JObj [(''object'', JStr ''page''), (''id'', JStr ''p1''), (''url'', JStr ''https://notion.so/p1'')]) = Inr True \<and>
   isFullPageOrDataSource (JObj (deleteField ''url'' [(''object'', JStr ''page''), (''id'', JStr ''p1''), (''url'', JStr ''https://notion.so/p1'')])) = Inr False \<and>
   isFullDataSource (JObj [(''object'', JStr ''data_source''), (''id'', JStr ''d1'')]) = Inr True \<and>
   isFullDataSource (JObj (deleteField ''object'' [(''object'', JStr ''data_source''), (''id'', JStr ''d1'')])) = Inr False \<and>
   isFullPageOrDataSource (JObj [(''object'', JStr ''data_source''), (''id'', JStr ''d1'')]) = Inr True \<and>
   isFullPageOrDataSource (JObj (deleteField ''object'' [(''object'', JStr ''data_source''), (''id'', JStr ''d1'')])) = Inr False \<and>
   isFullDatabase (JObj [(''object'', JStr ''database''), (''id'', JStr ''d2'')]) = Inr True \<and>
   isFullDatabase (JObj (deleteField ''object'' [(''object'', JStr ''database''), (''id'', JStr ''d2'')])) = Inr False \<and>
   isFullUser (JObj [(''object'', JStr ''user''), (''id'', JStr ''u1''), (''type'', JStr ''person'')]) = Inr True \<and>
   isFullUser (JObj (deleteField ''type'' [(''object'', JStr ''user''), (''id'', JStr ''u1''), (''type'', JStr ''person'')])) = Inr False \<and>
   isFullComment (JObj [(''object'', JStr ''comment''), (''id'', JStr ''c1''), (''created_by'', JObj [(''object'', JStr ''user''), (''id'', JStr ''u1'')])]) = Inr True \<and>
   isFullComment (JObj (deleteField ''created_by'' [(''object'', JStr ''comment''), (''id'', JStr ''c1''), (''created_by'', JObj [(''object'', JStr ''user''), (''id'', JStr ''u1'')])])) = Inr False"
proof -
  let ?block = "[(''object'', JStr ''block''), (''id'', JStr ''b1''), (''type'', JStr ''paragraph'')]"
  let ?page = "[(''object'', JStr ''page''), (''id'', JStr ''p1''), (''url'', JStr ''https://notion.so/p1'')]"
  let ?ds = "[(''object'', JStr ''data_source''), (''id'', JStr ''d1'')]"
  let ?db = "[(''object'', JStr ''database''), (''id'', JStr ''d2'')]"
  let ?user = "[(''object'', JStr ''user''), (''id'', JStr ''u1''), (''type'', JStr ''person'')]"
  let ?comment = "[(''object'', JStr ''comment''), (''id'', JStr ''c1''), (''created_by'', JObj [(''object'', JStr ''user''), (''id'', JStr ''u1'')])]"
  have f: "field ?block ''object'' = JStr ''block''" "hasField ?block ''type''"
    "field ?page ''object'' = JStr ''page''" "hasField ?page ''url''"
    "field ?ds ''object'' = JStr ''data_source''" "field ?db ''object'' = JStr ''database''"
    "hasField ?user ''type''" "hasField ?comment ''created_by''"
    by (simp_all add: field_def hasField_def)
  have d: "(if field ?page ''object'' = JStr ''data_source'' then ''object'' else ''url'') = ''url''"
    "(if field ?ds ''object'' = JStr ''data_source'' then ''object'' else ''url'') = ''object''"
    by (simp_all add: field_def)
  show ?thesis
    using fullness_predicates[of ?block] fullness_predicates[of ?page] fullness_predicates[of ?ds]
      fullness_predicates[of ?db] fullness_predicates[of ?user] fullness_predicates[of ?comment]
    unfolding d
    by (simp add: f del: js_member.simps js_in.simps)
qed

section \<open>Rich text\<close>

lemma map_of_other:
  "k \<in> set names \<Longrightarrow> map_of (filter (\<lambda>(k, v). k \<notin> set names) fs) k = None"
  by (induction fs) auto

lemma lookup_typed_first:
  assumes "k \<in> set names"
  shows "map_of (known @ filter (\<lambda>(k, v). k \<notin> set names) fs) k = map_of known k"
  using map_of_other[OF assms, of fs] by (cases "map_of known k") (simp_all add: map_add_def)

lemma item_names:
  "''type'' \<in> set itemFieldNames" "''plain_text'' \<in> set itemFieldNames"
  "''annotations'' \<in> set itemFieldNames" "''text'' \<in> set itemFieldNames"
  by (simp_all add: itemFieldNames_def)

lemma encodeItem_member:
  assumes "k \<in> set itemFieldNames" "k \<notin> set objectPrototypeNames"
  shows "js_member (encodeItem it) k
     = Inr (field ([(''type'', JStr (item_type it))]
           @ (case plain_text it of None \<Rightarrow> [] | Some s \<Rightarrow> [(''plain_text'', JStr s)])
           @ [(''href'', case href it of None \<Rightarrow> JNull | Some h \<Rightarrow> JStr h)]
           @ (case annotations it of None \<Rightarrow> [] | Some a \<Rightarrow> [(''annotations'', encodeAnnotations a)])
           @ (case item_text it of None \<Rightarrow> [] | Some t \<Rightarrow> [(''text'', encodeText t)])) k)"
proof -
  define known where "known = [(''type'', JStr (item_type it))]
           @ (case plain_text it of None \<Rightarrow> [] | Some s \<Rightarrow> [(''plain_text'', JStr s)])
           @ [(''href'', case href it of None \<Rightarrow> JNull | Some h \<Rightarrow> JStr h)]
           @ (case annotations it of None \<Rightarrow> [] | Some a \<Rightarrow> [(''annotations'', encodeAnnotations a)])
           @ (case item_text it of None \<Rightarrow> [] | Some t \<Rightarrow> [(''text'', encodeText t)])"
  define rest where "rest = filter (\<lambda>(k, v). k \<notin> set itemFieldNames) (other it)"
  have e: "encodeItem it = JObj (known @ rest)"
    by (simp add: encodeItem_def known_def rest_def)
  have "js_member (JObj (known @ rest)) k = Inr (field (known @ rest) k)"
    using assms(2) by (rule member_plain)
  also have "field (known @ rest) k = field known k"
    unfolding field_def rest_def by (simp only: lookup_typed_first[OF assms(1)])
  finally show ?thesis unfolding e known_def .
qed

lemma item_type_member: "js_member (encodeItem it) ''type'' = Inr (JStr (item_type it))"
  by (simp add: encodeItem_member item_names plain_names field_def)

lemma item_plain_text_member:
  "js_member (encodeItem it) ''plain_text''
     = Inr (case plain_text it of None \<Rightarrow> JUndefined | Some s \<Rightarrow> JStr s)"
  by (simp add: encodeItem_member item_names plain_names field_def split: option.splits)

lemma item_annotations_member:
  "js_member (encodeItem it) ''annotations''
     = Inr (case annotations it of None \<Rightarrow> JUndefined | Some a \<Rightarrow> encodeAnnotations a)"
  by (simp add: encodeItem_member item_names plain_names field_def split: option.splits)

lemma item_text_member:
  "js_member (encodeItem it) ''text''
     = Inr (case item_text it of None \<Rightarrow> JUndefined | Some t \<Rightarrow> encodeText t)"
  by (simp add: encodeItem_member item_names plain_names field_def split: option.splits)

lemma plain_or: "js_or (case plain_text it of None \<Rightarrow> JUndefined | Some s \<Rightarrow> JStr s) (JStr []) = JStr (plainOf it)"
  by (simp add: js_or_def plainOf_def split: option.splits)

lemma annotate_flags:
  "annotate (encodeAnnotations a) ''bold'' pre post (JStr x) = Inr (JStr (wrapIf (bold a) pre post x))"
  "annotate (encodeAnnotations a) ''italic'' pre post (JStr x) = Inr (JStr (wrapIf (italic a) pre post x))"
  "annotate (encodeAnnotations a) ''strikethrough'' pre post (JStr x) = Inr (JStr (wrapIf (strikethrough a) pre post x))"
  "annotate (encodeAnnotations a) ''underline'' pre post (JStr x) = Inr (JStr (wrapIf (underline a) pre post x))"
  "annotate (encodeAnnotations a) ''code'' pre post (JStr x) = Inr (JStr (wrapIf (code a) pre post x))"
  by (simp_all add: annotate_def encodeAnnotations_def template1_def wrapIf_def)

lemma link_member:
  "js_optional_member (case item_text it of None \<Rightarrow> JUndefined | Some t \<Rightarrow> encodeText t) ''link''
     = Inr (case item_text it of None \<Rightarrow> JUndefined
            | Some t \<Rightarrow> (case link t of None \<Rightarrow> JNull | Some url \<Rightarrow> JObj [(''url'', JStr url)]))"
  by (simp add: encodeText_def split: option.splits)

lemma markdownItem_encode: "markdownItem (encodeItem it) = Inr (JStr (toMarkdown_span it))"
proof -
  let ?plain = "plainOf it"
  let ?styled = "wrapIf (flagOf it code) ''`'' ''`''
     (wrapIf (flagOf it underline) ''<u>'' ''</u>''
       (wrapIf (flagOf it strikethrough) ''~~'' ''~~''
         (wrapIf (flagOf it italic) ''*'' ''*''
           (wrapIf (flagOf it bold) ''**'' ''**'' ?plain))))"
  have ann: "(if js_truthy (case annotations it of None \<Rightarrow> JUndefined | Some a \<Rightarrow> encodeAnnotations a) then
                  bindE (annotate (case annotations it of None \<Rightarrow> JUndefined | Some a \<Rightarrow> encodeAnnotations a) ''bold'' ''**'' ''**'' (JStr ?plain)) (\<lambda>text.
                  bindE (annotate (case annotations it of None \<Rightarrow> JUndefined | Some a \<Rightarrow> encodeAnnotations a) ''italic'' ''*'' ''*'' text) (\<lambda>text.
                  bindE (annotate (case annotations it of None \<Rightarrow> JUndefined | Some a \<Rightarrow> encodeAnnotations a) ''strikethrough'' ''~~'' ''~~'' text) (\<lambda>text.
                  bindE (annotate (case annotations it of None \<Rightarrow> JUndefined | Some a \<Rightarrow> encodeAnnotations a) ''underline'' ''<u>'' ''</u>'' text) (\<lambda>text.
                  annotate (case annotations it of None \<Rightarrow> JUndefined | Some a \<Rightarrow> encodeAnnotations a) ''code'' ''`'' ''`'' text))))
                else Inr (JStr ?plain)) = Inr (JStr ?styled)"
  proof (cases "annotations it")
    case None
    then show ?thesis by (simp add: flagOf_def wrapIf_def)
  next
    case (Some a)
    have t: "js_truthy (encodeAnnotations a)" by (simp add: encodeAnnotations_def)
    show ?thesis by (simp add: Some t annotate_flags flagOf_def)
  qed
  have lnk: "(if JStr (item_type it) = JStr ''text'' then
           bindE (js_member (encodeItem it) ''text'') (\<lambda>item_text.
           bindE (js_optional_member item_text ''link'') (\<lambda>link.
             if js_truthy link then
               bindE (js_member link ''url'') (\<lambda>url. template2 ''['' (JStr ?styled) '']('' url '')'')
             else Inr (JStr ?styled)))
         else Inr (JStr ?styled))
       = Inr (JStr (case linkOf it of None \<Rightarrow> ?styled | Some url \<Rightarrow> ''['' @ ?styled @ '']('' @ url @ '')''))"
    by (simp add: item_text_member link_member linkOf_def template2_def split: option.splits)
  show ?thesis
    unfolding markdownItem_def item_plain_text_member item_type_member item_annotations_member
      bindE_Inr Let_def plain_or
    by (simp only: ann lnk bindE_Inr) (simp add: toMarkdown_span_def template1_def Let_def)
qed

lemma mapE_Inr: "(\<And>x. x \<in> set xs \<Longrightarrow> f x = Inr (g x)) \<Longrightarrow> mapE f xs = Inr (map g xs)"
  by (induction xs) simp_all

lemma mapE_map: "(\<And>x. f (h x) = Inr (g x)) \<Longrightarrow> mapE f (map h xs) = Inr (map g xs)"
  by (induction xs) simp_all

lemma js_join_strings: "js_join (map JStr ss) = Inr (concat ss)"
proof -
  have "mapE (\<lambda>x. if x = JNull \<or> x = JUndefined then Inr [] else js_toString x) (map JStr ss)
          = Inr (map (\<lambda>x. case x of JStr s \<Rightarrow> s | _ \<Rightarrow> []) (map JStr ss))"
    by (rule mapE_Inr) auto
  then show ?thesis by (simp add: js_join_def comp_def)
qed

lemma richTextToMarkdown_encode:
  "richTextToMarkdown (JArr (map encodeItem items)) = Inr (toMarkdown_spec items)"
proof -
  have m: "mapE markdownItem (map encodeItem items) = Inr (map (\<lambda>it. JStr (toMarkdown_span it)) items)"
    by (rule mapE_map) (rule markdownItem_encode)
  have j: "js_join (map (\<lambda>it. JStr (toMarkdown_span it)) items) = Inr (concat (map toMarkdown_span items))"
    using js_join_strings[of "map toMarkdown_span items"] by (simp add: comp_def)
  show ?thesis by (simp add: richTextToMarkdown_def m j toMarkdown_spec_def)
qed

lemma plainItem_encode:
  "bindE (js_member (encodeItem it) ''plain_text'') (\<lambda>plain_text. Inr (js_or plain_text (JStr [])))
     = Inr (JStr (plainOf it))"
  by (simp add: item_plain_text_member plain_or)

lemma richTextToPlainText_encode:
  "richTextToPlainText (JArr (map encodeItem items)) = Inr (toPlainText_spec items)"
proof -
  have m: "mapE (\<lambda>item. bindE (js_member item ''plain_text'') (\<lambda>plain_text. Inr (js_or plain_text (JStr []))))
             (map encodeItem items) = Inr (map (\<lambda>it. JStr (plainOf it)) items)"
    by (rule mapE_map) (rule plainItem_encode)
  have j: "js_join (map (\<lambda>it. JStr (plainOf it)) items) = Inr (concat (map plainOf items))"
    using js_join_strings[of "map plainOf items"] by (simp add: comp_def)
  show ?thesis by (simp add: richTextToPlainText_def m j toPlainText_spec_def)
qed

lemma not_array: "\<not> Array_isArray v \<Longrightarrow> richTextToMarkdown v = Inr [] \<and> richTextToPlainText v = Inr []"
  by (simp add: richTextToMarkdown_def richTextToPlainText_def)

lemma single_span:
  "richTextToMarkdown (JArr [encodeItem it]) = Inr (toMarkdown_span it)"
  using richTextToMarkdown_encode[of "[it]"] by (simp add: toMarkdown_spec_def)

text \<open>
  Claim C4. A span of a type other than equation and mention renders as its \<open>plain_text\<close>
  wrapped, each wrapper under its flag and around what the ones before produced, in the
  order bold \<open>**x**\<close>, italic \<open>*x*\<close>, strikethrough \<open>~~x~~\<close>, underline \<open><u>x</u>\<close>, then code,
  and last, for a span of type text that carries a link, \<open>[x](url)\<close>. An equation renders as
  \<open>$plain_text$\<close> and a mention as its \<open>plain_text\<close>, whatever their annotations. The spans of
  an array are joined with no separator, and an input that is not an array (\<open>null\<close> and
  \<open>undefined\<close> among them) gives the empty string. A span with \<open>bold\<close>, \<open>code\<close> and the
  \<open>plain_text\<close> \<open>x\<close> renders as \<open>`**x**`\<close>.
\<close>

theorem richTextToMarkdown_rendering:
  "(item_type it \<noteq> ''equation'' \<and> item_type it \<noteq> ''mention'' \<longrightarrow>
      richTextToMarkdown (JArr [encodeItem it]) =
        Inr (let bolded = wrapIf (flagOf it bold) ''**'' ''**'' (plainOf it);
                 italicized = wrapIf (flagOf it italic) ''*'' ''*'' bolded;
                 struck = wrapIf (flagOf it strikethrough) ''~~'' ''~~'' italicized;
                 underlined = wrapIf (flagOf it underline) ''<u>'' ''</u>'' struck;
                 coded = wrapIf (flagOf it code) ''`'' ''`'' underlined
             in case linkOf it of None \<Rightarrow> coded | Some url \<Rightarrow> ''['' @ coded @ '']('' @ url @ '')'')) \<and>
   (item_type it = ''equation'' \<longrightarrow>
      richTextToMarkdown (JArr [encodeItem it]) = Inr (''$'' @ plainOf it @ ''$'')) \<and>
   (item_type it = ''mention'' \<longrightarrow> richTextToMarkdown (JArr [encodeItem it]) = Inr (plainOf it)) \<and>
   richTextToMarkdown (JArr (map encodeItem items)) = Inr (concat (map toMarkdown_span items)) \<and>
   (\<not> Array_isArray v \<longrightarrow> richTextToMarkdown v = Inr []) \<and>
   richTextToMarkdown
     (JArr [encodeItem \<lparr>item_type = ''text'', plain_text = Some ''x'', href = None,
              annotations = Some \<lparr>bold = True, italic = False, strikethrough = False,
                                  underline = False, code = True, color = ''default''\<rparr>,
              item_text = Some \<lparr>content = ''x'', link = None\<rparr>, other = []\<rparr>])
     = Inr ''`**x**`''"
  using richTextToMarkdown_encode[of items] not_array[of v]
  by (simp add: single_span toMarkdown_spec_def toMarkdown_span_def Let_def wrapIf_def flagOf_def
        plainOf_def linkOf_def)

theorem richTextToMarkdown_rendering_witness:
  "richTextToMarkdown
     (JArr [encodeItem \<lparr>item_type = ''text'', plain_text = Some ''go'', href = Some ''https://example.com'',
              annotations = Some \<lparr>bold = True, italic = True, strikethrough = False,
                                  underline = False, code = True, color = ''default''\<rparr>,
              item_text = Some \<lparr>content = ''go'', link = Some ''https://example.com''\<rparr>, other = []\<rparr>])
     = Inr ''[`***go***`](https://example.com)'' \<and>
   richTextToMarkdown
     (JArr [encodeItem \<lparr>item_type = ''equation'', plain_text = Some ''E=mc^2'', href = None,
              annotations = Some \<lparr>bold = True, italic = False, strikethrough = False,
                                  underline = False, code = False, color = ''default''\<rparr>,
              item_text = None, other = [(''equation'', JObj [(''expression'', JStr ''E=mc^2'')])]\<rparr>])
     = Inr ''$E=mc^2$'' \<and>
   richTextToMarkdown
     (JArr [encodeItem \<lparr>item_type = ''mention'', plain_text = Some ''@John'', href = None,
              annotations = Some \<lparr>bold = True, italic = False, strikethrough = False,
                                  underline = False, code = False, color = ''default''\<rparr>,
              item_text = None, other = []\<rparr>])
     = Inr ''@John'' \<and>
   richTextToMarkdown JNull = Inr [] \<and> richTextToMarkdown JUndefined = Inr [] \<and>
   richTextToMarkdown (JStr ''text'') = Inr []"
proof -
  let ?a = "\<lparr>item_type = ''text'', plain_text = Some ''go'', href = Some ''https://example.com'',
              annotations = Some \<lparr>bold = True, italic = True, strikethrough = False,
                                  underline = False, code = True, color = ''default''\<rparr>,
              item_text = Some \<lparr>content = ''go'', link = Some ''https://example.com''\<rparr>, other = []\<rparr>"
  let ?e = "\<lparr>item_type = ''equation'', plain_text = Some ''E=mc^2'', href = None,
              annotations = Some \<lparr>bold = True, italic = False, strikethrough = False,
                                  underline = False, code = False, color = ''default''\<rparr>,
              item_text = None, other = [(''equation'', JObj [(''expression'', JStr ''E=mc^2'')])]\<rparr>"
  let ?m = "\<lparr>item_type = ''mention'', plain_text = Some ''@John'', href = None,
              annotations = Some \<lparr>bold = True, italic = False, strikethrough = False,
                                  underline = False, code = False, color = ''default''\<rparr>,
              item_text = None, other = []\<rparr>"
  have 1: "richTextToMarkdown (JArr [encodeItem ?a]) = Inr ''[`***go***`](https://example.com)''"
    using richTextToMarkdown_rendering[of ?a, THEN conjunct1]
    by (simp add: Let_def wrapIf_def flagOf_def plainOf_def linkOf_def)
  have 2: "richTextToMarkdown (JArr [encodeItem ?e]) = Inr ''$E=mc^2$''"
    using richTextToMarkdown_rendering[of ?e, THEN conjunct2, THEN conjunct1]
    by (simp add: plainOf_def)
  have 3: "richTextToMarkdown (JArr [encodeItem ?m]) = Inr ''@John''"
    using richTextToMarkdown_rendering[of ?m, THEN conjunct2, THEN conjunct2, THEN conjunct1]
    by (simp add: plainOf_def)
  have 4: "richTextToMarkdown JNull = Inr []" "richTextToMarkdown JUndefined = Inr []"
    "richTextToMarkdown (JStr ''text'') = Inr []"
    using richTextToMarkdown_rendering[of _ _ JNull, THEN conjunct2, THEN conjunct2, THEN conjunct2, THEN conjunct2, THEN conjunct1]
      richTextToMarkdown_rendering[of _ _ JUndefined, THEN conjunct2, THEN conjunct2, THEN conjunct2, THEN conjunct2, THEN conjunct1]
      richTextToMarkdown_rendering[of _ _ "JStr ''text''", THEN conjunct2, THEN conjunct2, THEN conjunct2, THEN conjunct2, THEN conjunct1]
    by simp_all
  from 1 2 3 4 show ?thesis by (simp only: simp_thms)
qed

text \<open>
  Claim C10. On an array of spans of type text with no annotation flag set and no link,
  \<open>richTextToMarkdown\<close> and \<open>richTextToPlainText\<close> return the same string: the
  concatenation of the \<open>plain_text\<close> fields, an absent one counting as the empty string.
\<close>

theorem markdown_equals_plain_text:
  assumes "\<forall>it\<in>set items. item_type it = ''text'' \<and> \<not> flagOf it bold \<and> \<not> flagOf it italic \<and>
             \<not> flagOf it strikethrough \<and> \<not> flagOf it underline \<and> \<not> flagOf it code \<and>
             linkOf it = None"
  shows "richTextToMarkdown (JArr (map encodeItem items)) = richTextToPlainText (JArr (map encodeItem items)) \<and>
         richTextToPlainText (JArr (map encodeItem items)) = Inr (concat (map plainOf items))"
proof -
  have m: "map toMarkdown_span items = map plainOf items"
    using assms by (intro map_cong) (auto simp: toMarkdown_span_def wrapIf_def Let_def)
  have c: "toMarkdown_spec items = toPlainText_spec items"
    unfolding toMarkdown_spec_def toPlainText_spec_def by (simp only: m)
  show ?thesis
    unfolding richTextToMarkdown_encode richTextToPlainText_encode c
    by (simp add: toPlainText_spec_def)
qed

theorem markdown_equals_plain_text_witness:
  "richTextToMarkdown
     (JArr (map encodeItem
        [\<lparr>item_type = ''text'', plain_text = Some ''Hello '', href = None,
          annotations = Some \<lparr>bold = False, italic = False, strikethrough = False,
                              underline = False, code = False, color = ''default''\<rparr>,
          item_text = Some \<lparr>content = ''Hello '', link = None\<rparr>, other = []\<rparr>,
         \<lparr>item_type = ''text'', plain_text = None, href = None,
          annotations = Some \<lparr>bold = False, italic = False, strikethrough = False,
                              underline = False, code = False, color = ''red''\<rparr>,
          item_text = Some \<lparr>content = ''World'', link = None\<rparr>, other = []\<rparr>]))
     = Inr ''Hello '' \<and>
   richTextToPlainText
     (JArr (map encodeItem
        [\<lparr>item_type = ''text'', plain_text = Some ''Hello '', href = None,
          annotations = Some \<lparr>bold = False, italic = False, strikethrough = False,
                              underline = False, code = False, color = ''default''\<rparr>,
          item_text = Some \<lparr>content = ''Hello '', link = None\<rparr>, other = []\<rparr>,
         \<lparr>item_type = ''text'', plain_text = None, href = None,
          annotations = Some \<lparr>bold = False, italic = False, strikethrough = False,
                              underline = False, code = False, color = ''red''\<rparr>,
          item_text = Some \<lparr>content = ''World'', link = None\<rparr>, other = []\<rparr>]))
     = Inr ''Hello ''"
proof -
  let ?items = "[\<lparr>item_type = ''text'', plain_text = Some ''Hello '', href = None,
          annotations = Some \<lparr>bold = False, italic = False, strikethrough = False,
                              underline = False, code = False, color = ''default''\<rparr>,
          item_text = Some \<lparr>content = ''Hello '', link = None\<rparr>, other = []\<rparr>,
         \<lparr>item_type = ''text'', plain_text = None, href = None,
          annotations = Some \<lparr>bold = False, italic = False, strikethrough = False,
                              underline = False, code = False, color = ''red''\<rparr>,
          item_text = Some \<lparr>content = ''World'', link = None\<rparr>, other = []\<rparr>]"
  have h: "\<forall>it\<in>set ?items. item_type it = ''text'' \<and> \<not> flagOf it bold \<and> \<not> flagOf it italic \<and>
             \<not> flagOf it strikethrough \<and> \<not> flagOf it underline \<and> \<not> flagOf it code \<and>
             linkOf it = None"
    by (simp add: flagOf_def linkOf_def)
  have c: "concat (map plainOf ?items) = ''Hello ''" by (simp add: plainOf_def)
  from markdown_equals_plain_text[OF h] show ?thesis unfolding c by simp
qed


section \<open>getPageProperty\<close>

lemma kind_not_inherited:
  "kind \<in> set recognizedKinds \<Longrightarrow> kind \<notin> set objectPrototypeNames"
  by (auto simp: recognizedKinds_def rawKinds_def objectPrototypeNames_def)

lemma rawPayload_obj:
  "kind \<in> set recognizedKinds \<Longrightarrow>
   rawPayload (JObj pr) kind = Inr (if hasField pr kind then field pr kind else JNull)"
  by (simp add: rawPayload_def in_plain member_plain kind_not_inherited
           del: js_member.simps js_in.simps)

lemma namePayload_obj:
  "kind \<in> set recognizedKinds \<Longrightarrow>
   namePayload (JObj pr) kind
     = (if hasField pr kind then js_optional_member (field pr kind) ''name'' else Inr JNull)"
  by (simp add: namePayload_def in_plain member_plain kind_not_inherited
           del: js_member.simps js_in.simps)

lemma richTextPayload_obj:
  "kind \<in> set recognizedKinds \<Longrightarrow>
   richTextPayload (JObj pr) kind
     = (if hasField pr kind then bindE (richTextToPlainText (field pr kind)) (\<lambda>s. Inr (JStr s))
        else Inr JNull)"
  by (simp add: richTextPayload_def in_plain member_plain kind_not_inherited
           del: js_member.simps js_in.simps)

lemma namesPayload_obj:
  "kind \<in> set recognizedKinds \<Longrightarrow>
   namesPayload (JObj pr) kind
     = (if hasField pr kind
        then js_array_map (field pr kind) (\<lambda>item. js_member item ''name'')
        else Inr JNull)"
  by (simp add: namesPayload_def in_plain member_plain kind_not_inherited
           del: js_member.simps js_in.simps)

lemma hasField_if_field: "field fs k \<noteq> JUndefined \<Longrightarrow> hasField fs k"
  by (auto simp: field_def hasField_def split: option.splits dest: map_of_SomeD intro: rev_image_eqI)

lemma getPageProperty_not_full:
  "\<not> (field page ''object'' = JStr ''page'' \<and> hasField page ''url'') \<Longrightarrow>
   getPageProperty (JObj page) name = Inr JNull"
  by (simp add: getPageProperty_def isFullPage_obj)

lemma getPageProperty_no_properties:
  "\<not> js_truthy (field page ''properties'') \<Longrightarrow> getPageProperty (JObj page) name = Inr JNull"
  by (simp add: getPageProperty_def isFullPage_obj member_plain plain_names del: js_member.simps)

lemma getPageProperty_property:
  assumes "field page ''object'' = JStr ''page''" "hasField page ''url''"
    and "field page ''properties'' = JObj props"
  shows "getPageProperty (JObj page) name =
     bindE (js_member (JObj props) name) (\<lambda>property.
         if \<not> js_truthy property then Inr JNull
         else
           bindE (js_member property ''type'') (\<lambda>type.
           if type = JStr ''title'' then richTextPayload property ''title''
           else if type = JStr ''rich_text'' then richTextPayload property ''rich_text''
           else if type = JStr ''number'' then rawPayload property ''number''
           else if type = JStr ''select'' then namePayload property ''select''
           else if type = JStr ''multi_select'' then namesPayload property ''multi_select''
           else if type = JStr ''date'' then rawPayload property ''date''
           else if type = JStr ''people'' then rawPayload property ''people''
           else if type = JStr ''files'' then rawPayload property ''files''
           else if type = JStr ''checkbox'' then rawPayload property ''checkbox''
           else if type = JStr ''url'' then rawPayload property ''url''
           else if type = JStr ''email'' then rawPayload property ''email''
           else if type = JStr ''phone_number'' then rawPayload property ''phone_number''
           else if type = JStr ''formula'' then rawPayload property ''formula''
           else if type = JStr ''relation'' then rawPayload property ''relation''
           else if type = JStr ''rollup'' then rawPayload property ''rollup''
           else if type = JStr ''created_time'' then rawPayload property ''created_time''
           else if type = JStr ''created_by'' then rawPayload property ''created_by''
           else if type = JStr ''last_edited_time'' then rawPayload property ''last_edited_time''
           else if type = JStr ''last_edited_by'' then rawPayload property ''last_edited_by''
           else if type = JStr ''status'' then namePayload property ''status''
           else if type = JStr ''unique_id'' then rawPayload property ''unique_id''
           else if type = JStr ''verification'' then rawPayload property ''verification''
           else if type = JStr ''button'' then rawPayload property ''button''
           else Inr JNull))"
  using assms
  by (simp add: getPageProperty_def isFullPage_obj member_plain plain_names del: js_member.simps)

lemma getPageProperty_no_key:
  assumes "field page ''object'' = JStr ''page''" "hasField page ''url''"
    and "field page ''properties'' = JObj props" and "\<not> hasField props name"
  shows "getPageProperty (JObj page) name = Inr JNull"
proof -
  have "map_of props name = None"
    using assms(4) by (simp add: hasField_def map_of_eq_None_iff)
  then show ?thesis
    unfolding getPageProperty_property[OF assms(1-3)] by simp
qed

lemma getPageProperty_kind:
  assumes "field page ''object'' = JStr ''page''" "hasField page ''url''"
    and "field page ''properties'' = JObj props"
    and "map_of props name = Some (JObj pr)" and "field pr ''type'' = JStr kind"
  shows "getPageProperty (JObj page) name =
     (if kind \<in> {''title'', ''rich_text''} then richTextPayload (JObj pr) kind
      else if kind \<in> {''select'', ''status''} then namePayload (JObj pr) kind
      else if kind = ''multi_select'' then namesPayload (JObj pr) kind
      else if kind \<in> set rawKinds then rawPayload (JObj pr) kind
      else Inr JNull)"
proof -
  have t: "js_member (JObj pr) ''type'' = Inr (JStr kind)"
    using assms(5) member_plain[of "''type''" pr] by (simp add: plain_names)
  have p: "js_member (JObj props) name = Inr (JObj pr)" using assms(4) by simp
  show ?thesis
    unfolding getPageProperty_property[OF assms(1-3)] p bindE_Inr
    by (simp add: t rawKinds_def del: js_member.simps)
qed

lemma js_array_map_names:
  "js_array_map (JArr (map JObj opts)) (\<lambda>item. js_member item ''name'')
     = Inr (JArr (map (\<lambda>opt. field opt ''name'') opts))"
proof -
  have "mapE (\<lambda>item. js_member item ''name'') (map JObj opts)
          = Inr (map (\<lambda>opt. field opt ''name'') opts)"
    by (rule mapE_map) (simp add: member_plain plain_names del: js_member.simps)
  then show ?thesis by simp
qed

text \<open>
  Claim C5, as amended. \<open>getPageProperty\<close> returns \<open>null\<close> when the page is not a full page,
  when it has no \<open>properties\<close> map, and when the name is not a key of that map. For a
  property object with the type tag \<open>kind\<close>: a \<open>title\<close> or \<open>rich_text\<close> gives the plain text of
  its rich-text array; a \<open>select\<close> or \<open>status\<close> whose payload is an object gives the \<open>name\<close>
  field of that object, and one whose payload is \<open>null\<close> gives \<open>undefined\<close>; a \<open>multi_select\<close>
  gives the array of the \<open>name\<close> fields; every other recognized kind gives its payload as
  it is; a kind that is not recognized gives \<open>null\<close>, and nothing is thrown.
\<close>

theorem getPageProperty_dispatch:
  "(\<not> (field page ''object'' = JStr ''page'' \<and> hasField page ''url'')
      \<longrightarrow> getPageProperty (JObj page) name = Inr JNull) \<and>
   (\<not> js_truthy (field page ''properties'')
      \<longrightarrow> getPageProperty (JObj page) name = Inr JNull) \<and>
   (fullPageWith page props \<and> \<not> hasField props name
      \<longrightarrow> getPageProperty (JObj page) name = Inr JNull) \<and>
   (fullPageWith page props \<and> hasProperty props name pr kind \<and>
    kind \<in> {''title'', ''rich_text''} \<and> field pr kind = JArr (map encodeItem items)
      \<longrightarrow> getPageProperty (JObj page) name = Inr (JStr (toPlainText_spec items))) \<and>
   (fullPageWith page props \<and> hasProperty props name pr kind \<and>
    kind \<in> {''select'', ''status''} \<and> field pr kind = JObj opt
      \<longrightarrow> getPageProperty (JObj page) name = Inr (field opt ''name'')) \<and>
   (fullPageWith page props \<and> hasProperty props name pr kind \<and>
    kind \<in> {''select'', ''status''} \<and> hasField pr kind \<and> field pr kind = JNull
      \<longrightarrow> getPageProperty (JObj page) name = Inr JUndefined) \<and>
   (fullPageWith page props \<and> hasProperty props name pr kind \<and>
    kind = ''multi_select'' \<and> field pr kind = JArr (map JObj opts)
      \<longrightarrow> getPageProperty (JObj page) name = Inr (JArr (map (\<lambda>opt. field opt ''name'') opts))) \<and>
   (fullPageWith page props \<and> hasProperty props name pr kind \<and>
    kind \<in> set rawKinds \<and> hasField pr kind
      \<longrightarrow> getPageProperty (JObj page) name = Inr (field pr kind)) \<and>
   (fullPageWith page props \<and> hasProperty props name pr kind \<and> kind \<notin> set recognizedKinds
      \<longrightarrow> getPageProperty (JObj page) name = Inr JNull)"
proof (intro conjI impI)
  assume "\<not> (field page ''object'' = JStr ''page'' \<and> hasField page ''url'')"
  then show "getPageProperty (JObj page) name = Inr JNull" by (rule getPageProperty_not_full)
next
  assume "\<not> js_truthy (field page ''properties'')"
  then show "getPageProperty (JObj page) name = Inr JNull" by (rule getPageProperty_no_properties)
next
  assume "fullPageWith page props \<and> \<not> hasField props name"
  then show "getPageProperty (JObj page) name = Inr JNull"
    by (intro getPageProperty_no_key[of page props]) (simp_all add: fullPageWith_def)
next
  assume a: "fullPageWith page props \<and> hasProperty props name pr kind \<and>
    kind \<in> {''title'', ''rich_text''} \<and> field pr kind = JArr (map encodeItem items)"
  then have k: "getPageProperty (JObj page) name = richTextPayload (JObj pr) kind"
    using getPageProperty_kind[of page props name pr kind]
    by (auto simp: fullPageWith_def hasProperty_def)
  have "hasField pr kind" using a by (intro hasField_if_field) simp
  moreover have "kind \<in> set recognizedKinds" using a by (auto simp: recognizedKinds_def)
  ultimately show "getPageProperty (JObj page) name = Inr (JStr (toPlainText_spec items))"
    using a by (simp add: k richTextPayload_obj richTextToPlainText_encode)
next
  assume a: "fullPageWith page props \<and> hasProperty props name pr kind \<and>
    kind \<in> {''select'', ''status''} \<and> field pr kind = JObj opt"
  then have k: "getPageProperty (JObj page) name = namePayload (JObj pr) kind"
    using getPageProperty_kind[of page props name pr kind]
    by (auto simp: fullPageWith_def hasProperty_def)
  have "hasField pr kind" using a by (intro hasField_if_field) simp
  moreover have "kind \<in> set recognizedKinds" using a by (auto simp: recognizedKinds_def)
  ultimately show "getPageProperty (JObj page) name = Inr (field opt ''name'')"
    using a by (simp add: k namePayload_obj member_plain plain_names del: js_member.simps)
next
  assume a: "fullPageWith page props \<and> hasProperty props name pr kind \<and>
    kind \<in> {''select'', ''status''} \<and> hasField pr kind \<and> field pr kind = JNull"
  then have k: "getPageProperty (JObj page) name = namePayload (JObj pr) kind"
    using getPageProperty_kind[of page props name pr kind]
    by (auto simp: fullPageWith_def hasProperty_def)
  have "kind \<in> set recognizedKinds" using a by (auto simp: recognizedKinds_def)
  then show "getPageProperty (JObj page) name = Inr JUndefined"
    using a by (simp add: k namePayload_obj)
next
  assume a: "fullPageWith page props \<and> hasProperty props name pr kind \<and>
    kind = ''multi_select'' \<and> field pr kind = JArr (map JObj opts)"
  then have k: "getPageProperty (JObj page) name = namesPayload (JObj pr) kind"
    using getPageProperty_kind[of page props name pr kind]
    by (auto simp: fullPageWith_def hasProperty_def)
  from a have "field pr kind = JArr (map JObj opts)" by blast
  then have "field pr kind \<noteq> JUndefined" by simp
  then have "hasField pr kind" by (rule hasField_if_field)
  moreover have "kind \<in> set recognizedKinds" using a by (auto simp: recognizedKinds_def)
  moreover from a have "kind = ''multi_select''" "field pr ''multi_select'' = JArr (map JObj opts)"
    by auto
  ultimately show "getPageProperty (JObj page) name = Inr (JArr (map (\<lambda>opt. field opt ''name'') opts))"
    by (simp add: k namesPayload_obj js_array_map_names del: js_array_map.simps)
next
  assume a: "fullPageWith page props \<and> hasProperty props name pr kind \<and>
    kind \<in> set rawKinds \<and> hasField pr kind"
  then have k: "getPageProperty (JObj page) name = rawPayload (JObj pr) kind"
    using getPageProperty_kind[of page props name pr kind]
    by (auto simp: fullPageWith_def hasProperty_def rawKinds_def)
  have "kind \<in> set recognizedKinds" using a by (auto simp: recognizedKinds_def)
  then show "getPageProperty (JObj page) name = Inr (field pr kind)"
    using a by (simp add: k rawPayload_obj)
next
  assume a: "fullPageWith page props \<and> hasProperty props name pr kind \<and> kind \<notin> set recognizedKinds"
  then show "getPageProperty (JObj page) name = Inr JNull"
    using getPageProperty_kind[of page props name pr kind]
    by (auto simp: fullPageWith_def hasProperty_def recognizedKinds_def)
qed

theorem getPageProperty_dispatch_witness:
  "getPageProperty (JObj [(''object'', JStr ''page''), (''id'', JStr ''page-id'')]) ''Name'' = Inr JNull \<and>
   getPageProperty (JObj [(''object'', JStr ''page''), (''id'', JStr ''page-id''),
                          (''url'', JStr ''https://notion.so/page-id'')]) ''Name'' = Inr JNull \<and>
   getPageProperty (JObj examplePage) ''Missing'' = Inr JNull \<and>
   getPageProperty (JObj examplePage) ''constructor'' = Inr JNull \<and>
   getPageProperty (JObj examplePage) ''Name'' = Inr (JStr ''My Page'') \<and>
   getPageProperty (JObj examplePage) ''Status'' = Inr (JStr ''Active'') \<and>
   getPageProperty (JObj examplePage) ''Stage'' = Inr JUndefined \<and>
   getPageProperty (JObj examplePage) ''Tags'' = Inr (JArr [JStr ''Tag1'', JStr ''Tag2'']) \<and>
   getPageProperty (JObj examplePage) ''Count'' = Inr (JNum 42) \<and>
   getPageProperty (JObj examplePage) ''Odd'' = Inr JNull"
proof -
  let ?Name = "[(''id'', JStr ''title''), (''type'', JStr ''title''), (''title'', JArr (map encodeItem exampleTitle))]"
  let ?active = "[(''id'', JStr ''1''), (''name'', JStr ''Active''), (''color'', JStr ''green'')]"
  let ?Status = "[(''id'', JStr ''st''), (''type'', JStr ''select''), (''select'', JObj ?active)]"
  let ?Stage = "[(''id'', JStr ''sg''), (''type'', JStr ''status''), (''status'', JNull)]"
  let ?Tags = "[(''id'', JStr ''tags''), (''type'', JStr ''multi_select''), (''multi_select'', JArr (map JObj exampleTags))]"
  let ?Count = "[(''id'', JStr ''count''), (''type'', JStr ''number''), (''number'', JNum 42)]"
  let ?Odd = "[(''id'', JStr ''odd''), (''type'', JStr ''unsupported_kind'')]"
  let ?partial = "[(''object'', JStr ''page''), (''id'', JStr ''page-id'')]"
  let ?bare = "[(''object'', JStr ''page''), (''id'', JStr ''page-id''), (''url'', JStr ''https://notion.so/page-id'')]"
  note T = getPageProperty_dispatch
  have full: "fullPageWith examplePage exampleProperties"
    by (simp add: fullPageWith_def examplePage_def field_def hasField_def)
  have 1: "getPageProperty (JObj ?partial) ''Name'' = Inr JNull"
    using T[where page="?partial" and name="''Name''", THEN conjunct1]
    by (simp add: field_def hasField_def)
  have 2: "getPageProperty (JObj ?bare) ''Name'' = Inr JNull"
    using T[where page="?bare" and name="''Name''", THEN conjunct2, THEN conjunct1]
    by (simp add: field_def)
  have 3: "getPageProperty (JObj examplePage) name = Inr JNull" if "\<not> hasField exampleProperties name" for name
    using T[where page="examplePage" and name=name and props="exampleProperties", THEN conjunct2, THEN conjunct2,
        THEN conjunct1] full that by blast
  have m1: "getPageProperty (JObj examplePage) ''Missing'' = Inr JNull"
    by (rule 3) (simp add: hasField_def exampleProperties_def)
  have m2: "getPageProperty (JObj examplePage) ''constructor'' = Inr JNull"
    by (rule 3) (simp add: hasField_def exampleProperties_def)
  have 4: "getPageProperty (JObj examplePage) ''Name'' = Inr (JStr (toPlainText_spec exampleTitle))"
  proof -
    have "hasProperty exampleProperties ''Name'' ?Name ''title''"
      by (simp add: hasProperty_def field_def exampleProperties_def)
    moreover have "field ?Name ''title'' = JArr (map encodeItem exampleTitle)" by (simp add: field_def)
    ultimately show ?thesis
      using T[where page="examplePage" and name="''Name''" and props="exampleProperties" and pr="?Name"
          and kind="''title''" and items="exampleTitle",
          THEN conjunct2, THEN conjunct2, THEN conjunct2, THEN conjunct1] full
      by blast
  qed
  have 5: "getPageProperty (JObj examplePage) ''Status'' = Inr (field ?active ''name'')"
  proof -
    have "hasProperty exampleProperties ''Status'' ?Status ''select''"
      by (simp add: hasProperty_def field_def exampleProperties_def)
    moreover have "field ?Status ''select'' = JObj ?active" by (simp add: field_def)
    ultimately show ?thesis
      using T[where page="examplePage" and name="''Status''" and props="exampleProperties" and pr="?Status"
          and kind="''select''" and opt="?active",
          THEN conjunct2, THEN conjunct2, THEN conjunct2, THEN conjunct2, THEN conjunct1] full
      by blast
  qed
  have 6: "getPageProperty (JObj examplePage) ''Stage'' = Inr JUndefined"
  proof -
    have "hasProperty exampleProperties ''Stage'' ?Stage ''status''"
      by (simp add: hasProperty_def field_def exampleProperties_def)
    moreover have "field ?Stage ''status'' = JNull" "hasField ?Stage ''status''"
      by (simp_all add: field_def hasField_def)
    ultimately show ?thesis
      using T[where page="examplePage" and name="''Stage''" and props="exampleProperties" and pr="?Stage"
          and kind="''status''",
          THEN conjunct2, THEN conjunct2, THEN conjunct2, THEN conjunct2, THEN conjunct2,
          THEN conjunct1] full
      by blast
  qed
  have 7: "getPageProperty (JObj examplePage) ''Tags'' = Inr (JArr (map (\<lambda>opt. field opt ''name'') exampleTags))"
  proof -
    have "hasProperty exampleProperties ''Tags'' ?Tags ''multi_select''"
      by (simp add: hasProperty_def field_def exampleProperties_def)
    moreover have "field ?Tags ''multi_select'' = JArr (map JObj exampleTags)" by (simp add: field_def)
    ultimately show ?thesis
      using T[where page="examplePage" and name="''Tags''" and props="exampleProperties" and pr="?Tags"
          and kind="''multi_select''" and opts="exampleTags",
          THEN conjunct2, THEN conjunct2, THEN conjunct2, THEN conjunct2, THEN conjunct2,
          THEN conjunct2, THEN conjunct1] full
      by blast
  qed
  have 8: "getPageProperty (JObj examplePage) ''Count'' = Inr (field ?Count ''number'')"
  proof -
    have "hasProperty exampleProperties ''Count'' ?Count ''number''"
      by (simp add: hasProperty_def field_def exampleProperties_def)
    moreover have "hasField ?Count ''number''" "''number'' \<in> set rawKinds"
      by (simp_all add: hasField_def rawKinds_def)
    ultimately show ?thesis
      using T[where page="examplePage" and name="''Count''" and props="exampleProperties" and pr="?Count"
          and kind="''number''",
          THEN conjunct2, THEN conjunct2, THEN conjunct2, THEN conjunct2, THEN conjunct2,
          THEN conjunct2, THEN conjunct2, THEN conjunct1] full
      by blast
  qed
  have 9: "getPageProperty (JObj examplePage) ''Odd'' = Inr JNull"
  proof -
    have "hasProperty exampleProperties ''Odd'' ?Odd ''unsupported_kind''"
      by (simp add: hasProperty_def field_def exampleProperties_def)
    moreover have "''unsupported_kind'' \<notin> set recognizedKinds"
      by (simp add: recognizedKinds_def rawKinds_def)
    ultimately show ?thesis
      using T[where page="examplePage" and name="''Odd''" and props="exampleProperties" and pr="?Odd"
          and kind="''unsupported_kind''",
          THEN conjunct2, THEN conjunct2, THEN conjunct2, THEN conjunct2, THEN conjunct2,
          THEN conjunct2, THEN conjunct2, THEN conjunct2] full
      by blast
  qed
  have v: "toPlainText_spec exampleTitle = ''My Page''" "field ?active ''name'' = JStr ''Active''"
    "map (\<lambda>opt. field opt ''name'') exampleTags = [JStr ''Tag1'', JStr ''Tag2'']"
    "field ?Count ''number'' = JNum 42"
    by (simp_all add: toPlainText_spec_def plainOf_def field_def exampleTitle_def exampleTags_def)
  show ?thesis
    using 1 2 m1 m2 4 5 6 7 8 9 unfolding v by (simp only: simp_thms)
qed

text \<open>
  The claim as stated says \<open>null\<close> for a \<open>select\<close> or \<open>status\<close> without a value. The optional
  chaining \<open>property.status?.name\<close> gives \<open>undefined\<close> there.
\<close>

theorem getPageProperty_null_select_counterexample:
  "getPageProperty (JObj examplePage) ''Stage'' = Inr JUndefined \<and> JUndefined \<noteq> JNull"
  by code_simp

end
